theory Spec2Isabelle
  imports Complex_Main "HOL-Library.Multiset" "HOL-Library.Product_Lexorder"
begin

section \<open>Centerline path extraction: data model\<close>

text \<open>
  The Python source works on millimetre-space points (pairs of floats), strokes (the
  dataclass \<open>Stroke\<close> with the single field \<open>pts\<close>) and boolean pixel grids.
  Integers are unbounded. Coordinates are real numbers where only their order and
  distance matter to what is proved (stitching, bridging, reordering), of an arbitrary
  number type in smoothing, and IEEE doubles with NaN in simplification, whose result
  depends on how a NaN compares. Every \<open>raise\<close> of the source is a value of the error
  type below.
\<close>

datatype py_error =
    IndexError
  | ValueError
  | ZeroDivisionError
  | OverflowError
  | RecursionError
  | EmptyRaster
  | SkeletonCollapse
  | NoUsableStrokes

type_synonym point = "real \<times> real"

datatype stroke = Stroke (pts: "point list")

text \<open>\<open>_dist(a, b) = math.hypot(a[0] - b[0], a[1] - b[1])\<close>\<close>

definition dist_mm :: "point \<Rightarrow> point \<Rightarrow> real" where
  "dist_mm a b = sqrt ((fst a - fst b)\<^sup>2 + (snd a - snd b)\<^sup>2)"

section \<open>Curve polisher: corner-cutting smoothing\<close>

text \<open>
  The inner loop of \<open>chaikin_smooth\<close>: for every pair of consecutive points the two
  blends at 25 and 75 percent. The arithmetic is kept abstract in the coordinate type,
  so that nothing proved about the function depends on how sums and products round.
\<close>

fun chaikin_edges :: "('a::{numeral,times,inverse} \<times> 'a) list \<Rightarrow> ('a \<times> 'a) list" where
  "chaikin_edges ((x0, y0) # (x1, y1) # ps) =
     (3 / 4 * x0 + 1 / 4 * x1, 3 / 4 * y0 + 1 / 4 * y1) #
     (1 / 4 * x0 + 3 / 4 * x1, 1 / 4 * y0 + 3 / 4 * y1) #
     chaikin_edges ((x1, y1) # ps)"
| "chaikin_edges ps = []"

text \<open>One round of the outer loop; \<open>out[0]\<close> and \<open>out[-1]\<close> raise on an empty list.\<close>

definition chaikin_pass :: "('a::{numeral,times,inverse} \<times> 'a) list \<Rightarrow> py_error + ('a \<times> 'a) list" where
  "chaikin_pass out =
     (if out = [] then Inl IndexError
      else Inr ([hd out] @ chaikin_edges out @ [last out]))"

fun chaikin_rounds :: "nat \<Rightarrow> ('a::{numeral,times,inverse} \<times> 'a) list \<Rightarrow> py_error + ('a \<times> 'a) list" where
  "chaikin_rounds 0 out = Inr out"
| "chaikin_rounds (Suc n) out =
     (case chaikin_pass out of Inl e \<Rightarrow> Inl e | Inr new_pts \<Rightarrow> chaikin_rounds n new_pts)"

definition chaikin_smooth :: "('a::{numeral,times,inverse} \<times> 'a) list \<Rightarrow> int \<Rightarrow> py_error + ('a \<times> 'a) list" where
  "chaikin_smooth ps iters =
     (if iters \<le> 0 \<or> length ps < 3 then Inr ps else chaikin_rounds (nat iters) ps)"

section \<open>Route planner: stitching and bridging\<close>

text \<open>
  The loop of \<open>stitch_strokes\<close> over \<open>strokes[1:]\<close>, with the running point list
  \<open>cur\<close> and the finished strokes \<open>out\<close>. \<open>cur[-1]\<close> and \<open>st.pts[0]\<close> raise
  \<open>IndexError\<close> on an empty list.
\<close>

fun stitch_loop :: "real \<Rightarrow> stroke list \<Rightarrow> point list \<Rightarrow> stroke list \<Rightarrow> py_error + stroke list" where
  "stitch_loop stitch_mm [] cur out = Inr (out @ [Stroke cur])"
| "stitch_loop stitch_mm (st # rest) cur out =
     (if cur = [] \<or> pts st = [] then Inl IndexError
      else if dist_mm (last cur) (hd (pts st)) \<le> stitch_mm then
        stitch_loop stitch_mm rest
          ((if dist_mm (last cur) (hd (pts st)) > 1 / 10 ^ 9 then cur @ [hd (pts st)] else cur)
             @ tl (pts st)) out
      else stitch_loop stitch_mm rest (pts st) (out @ [Stroke cur]))"

definition stitch_strokes :: "stroke list \<Rightarrow> real \<Rightarrow> py_error + stroke list" where
  "stitch_strokes strokes stitch_mm =
     (if stitch_mm \<le> 0 \<or> strokes = [] then Inr strokes
      else stitch_loop stitch_mm (tl strokes) (pts (hd strokes)) [])"

text \<open>\<open>bridge_strokes\<close> is a separate function of the source, translated on its own.\<close>

fun bridge_loop :: "real \<Rightarrow> stroke list \<Rightarrow> point list \<Rightarrow> stroke list \<Rightarrow> py_error + stroke list" where
  "bridge_loop bridge_mm [] cur out = Inr (out @ [Stroke cur])"
| "bridge_loop bridge_mm (st # rest) cur out =
     (if cur = [] \<or> pts st = [] then Inl IndexError
      else if dist_mm (last cur) (hd (pts st)) \<le> bridge_mm then
        bridge_loop bridge_mm rest
          ((if dist_mm (last cur) (hd (pts st)) > 1 / 10 ^ 9 then cur @ [hd (pts st)] else cur)
             @ tl (pts st)) out
      else bridge_loop bridge_mm rest (pts st) (out @ [Stroke cur]))"

definition bridge_strokes :: "stroke list \<Rightarrow> real \<Rightarrow> py_error + stroke list" where
  "bridge_strokes strokes bridge_mm =
     (if bridge_mm \<le> 0 \<or> strokes = [] then Inr strokes
      else bridge_loop bridge_mm (tl strokes) (pts (hd strokes)) [])"

section \<open>Properties of smoothing\<close>

lemma chaikin_pass_ends:
  assumes "out \<noteq> []"
  shows "\<exists>new_pts. chaikin_pass out = Inr new_pts \<and> new_pts \<noteq> [] \<and>
           hd new_pts = hd out \<and> last new_pts = last out"
  using assms by (simp add: chaikin_pass_def)

lemma chaikin_rounds_ends:
  "out \<noteq> [] \<Longrightarrow> \<exists>res. chaikin_rounds n out = Inr res \<and> res \<noteq> [] \<and>
           hd res = hd out \<and> last res = last out"
proof (induction n arbitrary: out)
  case 0
  then show ?case by simp
next
  case (Suc n)
  from chaikin_pass_ends [OF Suc.prems] obtain new_pts where
    np: "chaikin_pass out = Inr new_pts" "new_pts \<noteq> []"
        "hd new_pts = hd out" "last new_pts = last out"
    by blast
  from Suc.IH [OF np(2)] obtain res where
    "chaikin_rounds n new_pts = Inr res" "res \<noteq> []"
    "hd res = hd new_pts" "last res = last new_pts"
    by blast
  with np show ?case by simp
qed

text \<open>
  Claim C7. For every non-empty point list and every iteration count, smoothing returns
  a list (it never raises) whose first and last elements are exactly the first and last
  elements of the input, whatever the coordinate arithmetic computes.
\<close>

theorem chaikin_smooth_preserves_endpoints:
  "ps \<noteq> [] \<Longrightarrow>
     \<exists>res. chaikin_smooth ps iters = Inr res \<and> res \<noteq> [] \<and>
           hd res = hd ps \<and> last res = last ps"
  unfolding chaikin_smooth_def
  using chaikin_rounds_ends [of ps "nat iters"] by simp

theorem chaikin_smooth_preserves_endpoints_witness:
  "[(0, 0), (4, 0), (4, 4 :: real)] \<noteq> [] \<and>
   (\<exists>res. chaikin_smooth [(0, 0), (4, 0), (4, 4 :: real)] 1 = Inr res \<and> res \<noteq> [] \<and>
      hd res = (0, 0) \<and> last res = (4, 4)) \<and>
   chaikin_smooth [(0, 0), (4, 0), (4, 4 :: real)] 1 =
     Inr [(0, 0), (1, 0), (3, 0), (4, 1), (4, 3), (4, 4)]"
  using chaikin_smooth_preserves_endpoints [of "[(0, 0), (4, 0), (4, 4 :: real)]" 1]
  by (simp add: chaikin_smooth_def chaikin_pass_def)

section \<open>Properties of stitching and bridging\<close>

lemma stitch_loop_eq_bridge_loop:
  "stitch_loop t rest cur out = bridge_loop t rest cur out"
  by (induction rest arbitrary: cur out) simp_all

text \<open>
  Claim C10. Stitching and bridging are the same function of the stroke list and the
  threshold: the same merge condition, the same insertion of the bridging point, the
  same behaviour at a threshold of zero or below, and the same errors.
\<close>

theorem stitch_strokes_eq_bridge_strokes:
  "stitch_strokes s t = bridge_strokes s t"
  by (simp add: stitch_strokes_def bridge_strokes_def stitch_loop_eq_bridge_loop)

section \<open>Curve polisher: simplification\<close>

text \<open>
  \<open>rdp_simplify\<close> compares floating-point deviations, so its points are modelled as
  pairs of IEEE doubles: a finite value, an infinity or NaN. The comparisons of doubles
  are exact and are defined here: every comparison with NaN is false.
\<close>

datatype fl = Fin real | PInf | NInf | NaN

fun fl_lt :: "fl \<Rightarrow> fl \<Rightarrow> bool" where
  "fl_lt NaN b = False"
| "fl_lt a NaN = False"
| "fl_lt (Fin x) (Fin y) = (x < y)"
| "fl_lt (Fin x) PInf = True"
| "fl_lt (Fin x) NInf = False"
| "fl_lt PInf b = False"
| "fl_lt NInf NInf = False"
| "fl_lt NInf b = True"

definition fl_gt :: "fl \<Rightarrow> fl \<Rightarrow> bool" where
  "fl_gt a b = fl_lt b a"












section \<open>Properties of simplification\<close>

lemma fl_gt_NaN [simp]: "\<not> fl_gt NaN b" "\<not> fl_gt a NaN"
  by (cases b; simp add: fl_gt_def) (cases a; simp add: fl_gt_def)



























subsection \<open>An instance of the arithmetic\<close>

text \<open>
  Double arithmetic of Python floats with the rounding of finite results left out:
  results beyond the largest double overflow to an infinity, infinities and NaN follow
  the IEEE rules, division by zero raises. Where every finite intermediate result is a
  double itself (sums, differences and products of small powers of two, say), this is
  what Python computes.
\<close>

definition max_double :: real where
  "max_double = (2 - 1 / 2 ^ 52) * 2 ^ 1023"

definition overflow :: "real \<Rightarrow> fl" where
  "overflow x = (if x > max_double then PInf else if x < - max_double then NInf else Fin x)"










lemma overflow_small: "\<bar>x\<bar> \<le> 2 ^ 1000 \<Longrightarrow> overflow x = Fin x"
proof -
  assume a: "\<bar>x\<bar> \<le> 2 ^ 1000"
  have "(2 :: real) ^ 1000 \<le> max_double"
    by (simp add: max_double_def)
  with a show ?thesis by (auto simp: overflow_def)
qed

lemma overflow_big: "2 ^ 1024 \<le> x \<Longrightarrow> overflow x = PInf"
proof -
  assume a: "2 ^ 1024 \<le> x"
  have "max_double < (2 :: real) ^ 1024"
    by (simp add: max_double_def)
  with a show ?thesis by (auto simp: overflow_def)
qed










section \<open>Route planner: reordering\<close>

text \<open>
  \<open>stroke_bbox_x\<close>, \<open>stroke_bbox_y\<close> and \<open>stroke_endpoints\<close>. On a stroke without
  points \<open>min\<close> raises \<open>ValueError\<close> and \<open>pts[0]\<close> raises \<open>IndexError\<close>; the reordering
  functions below call them only after the sort has computed the key of every stroke,
  which is where an empty stroke is caught.
\<close>

definition stroke_bbox_x :: "stroke \<Rightarrow> real \<times> real" where
  "stroke_bbox_x st = (let xs = map fst (pts st) in (Min (set xs), Max (set xs)))"

definition stroke_bbox_y :: "stroke \<Rightarrow> real \<times> real" where
  "stroke_bbox_y st = (let ys = map snd (pts st) in (Min (set ys), Max (set ys)))"

definition stroke_endpoints :: "stroke \<Rightarrow> point \<times> point" where
  "stroke_endpoints st = (hd (pts st), last (pts st))"

text \<open>
  \<open>list.pop(i)\<close>: a negative index counts from the end, an index out of range raises.
\<close>

definition pop_at :: "int \<Rightarrow> 'a list \<Rightarrow> py_error + ('a \<times> 'a list)" where
  "pop_at i xs =
     (if 0 \<le> i \<and> i < int (length xs) then
        Inr (xs ! nat i, take (nat i) xs @ drop (Suc (nat i)) xs)
      else if i < 0 \<and> - int (length xs) \<le> i then
        Inr (xs ! nat (int (length xs) + i),
             take (nat (int (length xs) + i)) xs @ drop (Suc (nat (int (length xs) + i))) xs)
      else Inl IndexError)"

text \<open>
  One round of the scan over \<open>enumerate(remaining)\<close> in \<open>reorder_strokes_lr\<close>, on the
  state \<open>(best_i, best_rev, best_cost)\<close>.
\<close>

definition lr_scan_step :: "point \<Rightarrow> real \<Rightarrow> real \<Rightarrow> nat \<times> stroke \<Rightarrow> int \<times> bool \<times> real \<Rightarrow> int \<times> bool \<times> real" where
  "lr_scan_step cur_pt cur_x lr_penalty ist best =
     (case (ist, stroke_endpoints (snd ist), best) of ((i, st), (a, b), (best_i, best_rev, best_cost)) \<Rightarrow>
        let cost_f = dist_mm cur_pt a + lr_penalty * max 0 (cur_x - fst a);
            cost_r = dist_mm cur_pt b + lr_penalty * max 0 (cur_x - fst b);
            best1 = (if cost_f < best_cost then (int i, False, cost_f)
                     else (best_i, best_rev, best_cost))
        in if cost_r < snd (snd best1) then (int i, True, cost_r) else best1)"

definition lr_scan :: "point \<Rightarrow> real \<Rightarrow> real \<Rightarrow> stroke list \<Rightarrow> int \<times> bool \<times> real" where
  "lr_scan cur_pt cur_x lr_penalty remaining =
     fold (lr_scan_step cur_pt cur_x lr_penalty) (enumerate 0 remaining) (- 1, False, 10 ^ 18)"

lemma pop_at_length:
  "pop_at i xs = Inr (x, rest) \<Longrightarrow> length rest < length xs"
  by (auto simp: pop_at_def split: if_splits)

function lr_loop :: "real \<Rightarrow> stroke list \<Rightarrow> stroke list \<Rightarrow> point \<Rightarrow> real \<Rightarrow> py_error + stroke list" where
  "lr_loop lr_penalty remaining ordered cur_pt cur_x =
     (if remaining = [] then Inr ordered
      else
        case lr_scan cur_pt cur_x lr_penalty remaining of (best_i, best_rev, best_cost) \<Rightarrow>
          (case pop_at best_i remaining of
             Inl e \<Rightarrow> Inl e
           | Inr (popped, rest) \<Rightarrow>
               let nxt = (if best_rev then Stroke (rev (pts popped)) else popped)
               in lr_loop lr_penalty rest (ordered @ [nxt]) (last (pts nxt)) (fst (last (pts nxt)))))"
  by pat_completeness auto
termination
  by (relation "measure (\<lambda>(p, remaining, ordered, c, x). length remaining)")
     (auto dest: pop_at_length)

definition reorder_strokes_lr :: "stroke list \<Rightarrow> real \<Rightarrow> py_error + stroke list" where
  "reorder_strokes_lr strokes lr_penalty =
     (if strokes = [] then Inr strokes
      else if \<exists>s \<in> set strokes. pts s = [] then Inl ValueError
      else
        let remaining = sort_key (\<lambda>s. fst (stroke_bbox_x s)) strokes;
            cur = hd remaining;
            remaining = tl remaining;
            cur_pt = last (pts cur)
        in lr_loop lr_penalty remaining [cur] cur_pt (fst cur_pt))"

text \<open>The same for \<open>reorder_strokes_tlbr\<close>, with its two penalties.\<close>

definition cost_to :: "point \<Rightarrow> real \<Rightarrow> real \<Rightarrow> point \<Rightarrow> real" where
  "cost_to cur_pt up_penalty left_penalty pt =
     (let dx = fst cur_pt - fst pt; dy = snd cur_pt - snd pt
      in dist_mm cur_pt pt + left_penalty * max 0 dx + up_penalty * max 0 dy)"

definition tlbr_scan_step :: "point \<Rightarrow> real \<Rightarrow> real \<Rightarrow> nat \<times> stroke \<Rightarrow> int \<times> bool \<times> real \<Rightarrow> int \<times> bool \<times> real" where
  "tlbr_scan_step cur_pt up_penalty left_penalty ist best =
     (case (ist, stroke_endpoints (snd ist), best) of ((i, st), (a, b), (best_i, best_rev, best_cost)) \<Rightarrow>
        let cost_f = cost_to cur_pt up_penalty left_penalty a;
            cost_r = cost_to cur_pt up_penalty left_penalty b;
            best1 = (if cost_f < best_cost then (int i, False, cost_f)
                     else (best_i, best_rev, best_cost))
        in if cost_r < snd (snd best1) then (int i, True, cost_r) else best1)"

definition tlbr_scan :: "point \<Rightarrow> real \<Rightarrow> real \<Rightarrow> stroke list \<Rightarrow> int \<times> bool \<times> real" where
  "tlbr_scan cur_pt up_penalty left_penalty remaining =
     fold (tlbr_scan_step cur_pt up_penalty left_penalty) (enumerate 0 remaining) (- 1, False, 10 ^ 18)"

function tlbr_loop :: "real \<Rightarrow> real \<Rightarrow> stroke list \<Rightarrow> stroke list \<Rightarrow> point \<Rightarrow> py_error + stroke list" where
  "tlbr_loop up_penalty left_penalty remaining ordered cur_pt =
     (if remaining = [] then Inr ordered
      else
        case tlbr_scan cur_pt up_penalty left_penalty remaining of (best_i, best_rev, best_cost) \<Rightarrow>
          (case pop_at best_i remaining of
             Inl e \<Rightarrow> Inl e
           | Inr (popped, rest) \<Rightarrow>
               let nxt = (if best_rev then Stroke (rev (pts popped)) else popped)
               in tlbr_loop up_penalty left_penalty rest (ordered @ [nxt]) (last (pts nxt))))"
  by pat_completeness auto
termination
  by (relation "measure (\<lambda>(u, l, remaining, ordered, c). length remaining)")
     (auto dest: pop_at_length)

definition reorder_strokes_tlbr :: "stroke list \<Rightarrow> real \<Rightarrow> real \<Rightarrow> py_error + stroke list" where
  "reorder_strokes_tlbr strokes up_penalty left_penalty =
     (if strokes = [] then Inr strokes
      else if \<exists>s \<in> set strokes. pts s = [] then Inl ValueError
      else
        let remaining = sort_key (\<lambda>s. (- snd (stroke_bbox_y s), fst (stroke_bbox_x s))) strokes;
            cur = hd remaining;
            remaining = tl remaining
        in tlbr_loop up_penalty left_penalty remaining [cur] (last (pts cur)))"


section \<open>Properties of reordering\<close>

text \<open>
  \<open>out\<close> is a reordering of \<open>strokes\<close> up to reversal: a permutation \<open>ys\<close> of the
  input, each stroke kept as it is or with its point sequence reversed.
\<close>

definition flip :: "bool \<Rightarrow> stroke \<Rightarrow> stroke" where
  "flip f s = (if f then Stroke (rev (pts s)) else s)"

definition reordering :: "stroke list \<Rightarrow> stroke list \<Rightarrow> bool" where
  "reordering strokes out \<longleftrightarrow>
     (\<exists>ys fs. mset ys = mset strokes \<and> length fs = length ys \<and> out = map2 flip fs ys)"

lemma mset_without_nth:
  assumes "j < length xs"
  shows "mset xs = add_mset (xs ! j) (mset (take j xs @ drop (Suc j) xs))"
proof -
  have "xs = take j xs @ xs ! j # drop (Suc j) xs"
    using assms by (simp add: id_take_nth_drop)
  then have "mset xs = mset (take j xs @ xs ! j # drop (Suc j) xs)" by simp
  then show ?thesis by simp
qed

lemma pop_at_mset:
  assumes "pop_at i xs = Inr (x, rest)"
  shows "mset xs = add_mset x (mset rest)"
proof (cases "0 \<le> i")
  case True
  with assms have "nat i < length xs" "x = xs ! nat i"
    "rest = take (nat i) xs @ drop (Suc (nat i)) xs"
    by (auto simp: pop_at_def split: if_splits)
  then show ?thesis using mset_without_nth [of "nat i" xs] by simp
next
  case False
  define j where "j = nat (int (length xs) + i)"
  from False assms have "j < length xs" "x = xs ! j" "rest = take j xs @ drop (Suc j) xs"
    by (auto simp: pop_at_def j_def split: if_splits)
  then show ?thesis using mset_without_nth [of j xs] by simp
qed

lemma pop_at_ok:
  assumes "xs \<noteq> []" "i = - 1 \<or> (0 \<le> i \<and> i < int (length xs))"
  shows "\<exists>x rest. pop_at i xs = Inr (x, rest)"
  using assms by (cases xs) (auto simp: pop_at_def)

lemma lr_scan_fold:
  "case fold (lr_scan_step c x p) (enumerate n xs) (bi, br, bc) of (best_i, best_rev, best_cost) \<Rightarrow>
     best_i = bi \<or> (int n \<le> best_i \<and> best_i < int (n + length xs))"
proof (induction xs arbitrary: n bi br bc)
  case Nil
  then show ?case by simp
next
  case (Cons s xs)
  obtain bj bs bd where st: "lr_scan_step c x p (n, s) (bi, br, bc) = (bj, bs, bd)"
    by (cases "lr_scan_step c x p (n, s) (bi, br, bc)")
  then have bj: "bj = bi \<or> bj = int n"
    by (auto simp: lr_scan_step_def Let_def split: prod.splits if_splits)
  show ?case using Cons.IH [where n = "Suc n" and bi = bj and br = bs and bc = bd] bj
    by (auto simp: st split: prod.splits)
qed

lemma lr_scan_range:
  "lr_scan c x p xs = (best_i, best_rev, best_cost) \<Longrightarrow>
     best_i = - 1 \<or> (0 \<le> best_i \<and> best_i < int (length xs))"
  using lr_scan_fold [where c = c and x = x and p = p and n = 0 and xs = xs and bi = "- 1"
      and br = False and bc = "10 ^ 18"]
  by (auto simp: lr_scan_def)

lemma tlbr_scan_fold:
  "case fold (tlbr_scan_step c u l) (enumerate n xs) (bi, br, bc) of (best_i, best_rev, best_cost) \<Rightarrow>
     best_i = bi \<or> (int n \<le> best_i \<and> best_i < int (n + length xs))"
proof (induction xs arbitrary: n bi br bc)
  case Nil
  then show ?case by simp
next
  case (Cons s xs)
  obtain bj bs bd where st: "tlbr_scan_step c u l (n, s) (bi, br, bc) = (bj, bs, bd)"
    by (cases "tlbr_scan_step c u l (n, s) (bi, br, bc)")
  then have bj: "bj = bi \<or> bj = int n"
    by (auto simp: tlbr_scan_step_def Let_def split: prod.splits if_splits)
  show ?case using Cons.IH [where n = "Suc n" and bi = bj and br = bs and bc = bd] bj
    by (auto simp: st split: prod.splits)
qed

lemma tlbr_scan_range:
  "tlbr_scan c u l xs = (best_i, best_rev, best_cost) \<Longrightarrow>
     best_i = - 1 \<or> (0 \<le> best_i \<and> best_i < int (length xs))"
  using tlbr_scan_fold [where c = c and u = u and l = l and n = 0 and xs = xs and bi = "- 1"
      and br = False and bc = "10 ^ 18"]
  by (auto simp: tlbr_scan_def)

declare lr_loop.simps [simp del] tlbr_loop.simps [simp del]

lemma extend_reordering:
  assumes "mset remaining = add_mset popped (mset rest)"
    "mset ys = mset rest" "length fs = length ys"
  shows "\<exists>ys' fs'. mset ys' = mset remaining \<and> length fs' = length ys' \<and>
           (ordered @ [flip f popped]) @ map2 flip fs ys = ordered @ map2 flip fs' ys'"
  using assms by (intro exI [of _ "popped # ys"] exI [of _ "f # fs"]) simp

lemma lr_loop_reorders:
  "\<exists>out ys fs. lr_loop p remaining ordered c x = Inr out \<and>
      mset ys = mset remaining \<and> length fs = length ys \<and> out = ordered @ map2 flip fs ys"
proof (induction p remaining ordered c x rule: lr_loop.induct)
  case (1 p remaining ordered c x)
  show ?case
  proof (cases "remaining = []")
    case True
    then show ?thesis by (subst lr_loop.simps) simp
  next
    case False
    obtain best_i best_rev best_cost where sc: "lr_scan c x p remaining = (best_i, best_rev, best_cost)"
      by (cases "lr_scan c x p remaining")
    from pop_at_ok [OF False lr_scan_range [OF sc]] obtain popped rest where
      pop: "pop_at best_i remaining = Inr (popped, rest)" by blast
    define nxt where "nxt = (if best_rev then Stroke (rev (pts popped)) else popped)"
    have nxt: "nxt = flip best_rev popped" by (simp add: nxt_def flip_def)
    have eq: "lr_loop p remaining ordered c x =
        lr_loop p rest (ordered @ [nxt]) (last (pts nxt)) (fst (last (pts nxt)))"
      by (subst lr_loop.simps) (simp add: False sc pop nxt_def Let_def)
    from "1.IH" [OF False sc [symmetric] refl pop refl nxt_def]
    obtain out ys fs where ih:
      "lr_loop p rest (ordered @ [nxt]) (last (pts nxt)) (fst (last (pts nxt))) = Inr out"
      "mset ys = mset rest" "length fs = length ys" "out = (ordered @ [nxt]) @ map2 flip fs ys"
      by blast
    from extend_reordering [OF pop_at_mset [OF pop] ih(2,3), of ordered best_rev]
    show ?thesis unfolding eq using ih(1,4) nxt by auto
  qed
qed

lemma tlbr_loop_reorders:
  "\<exists>out ys fs. tlbr_loop u l remaining ordered c = Inr out \<and>
      mset ys = mset remaining \<and> length fs = length ys \<and> out = ordered @ map2 flip fs ys"
proof (induction u l remaining ordered c rule: tlbr_loop.induct)
  case (1 u l remaining ordered c)
  show ?case
  proof (cases "remaining = []")
    case True
    then show ?thesis by (subst tlbr_loop.simps) simp
  next
    case False
    obtain best_i best_rev best_cost where sc: "tlbr_scan c u l remaining = (best_i, best_rev, best_cost)"
      by (cases "tlbr_scan c u l remaining")
    from pop_at_ok [OF False tlbr_scan_range [OF sc]] obtain popped rest where
      pop: "pop_at best_i remaining = Inr (popped, rest)" by blast
    define nxt where "nxt = (if best_rev then Stroke (rev (pts popped)) else popped)"
    have nxt: "nxt = flip best_rev popped" by (simp add: nxt_def flip_def)
    have eq: "tlbr_loop u l remaining ordered c =
        tlbr_loop u l rest (ordered @ [nxt]) (last (pts nxt))"
      by (subst tlbr_loop.simps) (simp add: False sc pop nxt_def Let_def)
    from "1.IH" [OF False sc [symmetric] refl pop refl nxt_def]
    obtain out ys fs where ih:
      "tlbr_loop u l rest (ordered @ [nxt]) (last (pts nxt)) = Inr out"
      "mset ys = mset rest" "length fs = length ys" "out = (ordered @ [nxt]) @ map2 flip fs ys"
      by blast
    from extend_reordering [OF pop_at_mset [OF pop] ih(2,3), of ordered best_rev]
    show ?thesis unfolding eq using ih(1,4) nxt by auto
  qed
qed

lemma start_reordering:
  assumes "strokes \<noteq> []" "mset srt = mset strokes"
    "mset ys = mset (tl srt)" "length fs = length ys"
  shows "reordering strokes ([hd srt] @ map2 flip fs ys)"
proof -
  from assms(1,2) have ne: "srt \<noteq> []" by auto
  then have "mset (hd srt # ys) = mset strokes"
    using assms(2,3) by (cases srt) auto
  then show ?thesis unfolding reordering_def
    using assms(4)
    by (intro exI [of _ "hd srt # ys"] exI [of _ "False # fs"]) (simp add: flip_def)
qed

text \<open>
  Claim C6. On a list of strokes that each have at least one point, both reordering
  functions return a list, and that list is a permutation of the input in which every
  stroke appears unchanged or with its point sequence reversed: the multiset of strokes
  is preserved up to reversal, none duplicated, none dropped.
\<close>

theorem reorder_preserves_strokes:
  assumes "\<forall>s \<in> set strokes. pts s \<noteq> []"
  shows "(\<exists>out. reorder_strokes_lr strokes lr_penalty = Inr out \<and> reordering strokes out) \<and>
         (\<exists>out. reorder_strokes_tlbr strokes up_penalty left_penalty = Inr out \<and> reordering strokes out)"
proof (cases "strokes = []")
  case True
  have "reordering [] []" by (simp add: reordering_def)
  with True show ?thesis by (simp add: reorder_strokes_lr_def reorder_strokes_tlbr_def)
next
  case False
  define s1 where "s1 = sort_key (\<lambda>s. fst (stroke_bbox_x s)) strokes"
  define s2 where "s2 = sort_key (\<lambda>s. (- snd (stroke_bbox_y s), fst (stroke_bbox_x s))) strokes"
  have m: "mset s1 = mset strokes" "mset s2 = mset strokes" by (simp_all add: s1_def s2_def)
  have e1: "reorder_strokes_lr strokes lr_penalty =
      lr_loop lr_penalty (tl s1) [hd s1] (last (pts (hd s1))) (fst (last (pts (hd s1))))"
    using False assms by (simp add: reorder_strokes_lr_def Let_def s1_def)
  have e2: "reorder_strokes_tlbr strokes up_penalty left_penalty =
      tlbr_loop up_penalty left_penalty (tl s2) [hd s2] (last (pts (hd s2)))"
    using False assms by (simp add: reorder_strokes_tlbr_def Let_def s2_def)
  from lr_loop_reorders [of lr_penalty "tl s1" "[hd s1]" "last (pts (hd s1))" "fst (last (pts (hd s1)))"]
  have "\<exists>out. reorder_strokes_lr strokes lr_penalty = Inr out \<and> reordering strokes out"
    unfolding e1 using start_reordering [OF False m(1)] by auto
  moreover
  from tlbr_loop_reorders [of up_penalty left_penalty "tl s2" "[hd s2]" "last (pts (hd s2))"]
  have "\<exists>out. reorder_strokes_tlbr strokes up_penalty left_penalty = Inr out \<and> reordering strokes out"
    unfolding e2 using start_reordering [OF False m(2)] by auto
  ultimately show ?thesis by blast
qed


lemma dist_mm_horizontal: "dist_mm (a, y) (b, y) = \<bar>a - b\<bar>"
  by (simp add: dist_mm_def)

lemma reorder_lr_example:
  "reorder_strokes_lr [Stroke [(5, 0), (3, 0)], Stroke [(0, 0), (1, 0)]] 15 =
     Inr [Stroke [(0, 0), (1, 0)], Stroke [(3, 0), (5, 0)]]"
  by (simp add: reorder_strokes_lr_def stroke_bbox_x_def lr_loop.simps lr_scan_def
      lr_scan_step_def stroke_endpoints_def pop_at_def dist_mm_horizontal enumerate_eq_zip Let_def)

lemma reorder_tlbr_example:
  "reorder_strokes_tlbr [Stroke [(5, 0), (3, 0)], Stroke [(0, 0), (1, 0)]] 1 1 =
     Inr [Stroke [(0, 0), (1, 0)], Stroke [(3, 0), (5, 0)]]"
  by (simp add: reorder_strokes_tlbr_def stroke_bbox_x_def stroke_bbox_y_def tlbr_loop.simps
      tlbr_scan_def tlbr_scan_step_def cost_to_def stroke_endpoints_def pop_at_def
      dist_mm_horizontal enumerate_eq_zip Let_def)

theorem reorder_preserves_strokes_witness:
  "reorder_strokes_lr [Stroke [(5, 0), (3, 0)], Stroke [(0, 0), (1, 0)]] 15 =
     Inr [Stroke [(0, 0), (1, 0)], Stroke [(3, 0), (5, 0)]] \<and>
   reorder_strokes_tlbr [Stroke [(5, 0), (3, 0)], Stroke [(0, 0), (1, 0)]] 1 1 =
     Inr [Stroke [(0, 0), (1, 0)], Stroke [(3, 0), (5, 0)]] \<and>
   reordering [Stroke [(5, 0), (3, 0)], Stroke [(0, 0), (1, 0)]]
     [Stroke [(0, 0), (1, 0)], Stroke [(3, 0), (5, 0)]]"
  using reorder_preserves_strokes [of "[Stroke [(5, 0), (3, 0)], Stroke [(0, 0), (1, 0)]]" 15 1 1]
  by (simp add: reorder_lr_example reorder_tlbr_example)

section \<open>Morphology engine\<close>

text \<open>
  A mask is a numpy array of booleans of shape \<open>(h, w)\<close>, modelled as the list of its
  rows. \<open>rect h w m\<close> says that \<open>m\<close> has that shape.
\<close>

type_synonym mask = "bool list list"

definition rect :: "nat \<Rightarrow> nat \<Rightarrow> 'a list list \<Rightarrow> bool" where
  "rect h w m \<longleftrightarrow> length m = h \<and> list_all (\<lambda>row. length row = w) m"

definition width :: "'a list list \<Rightarrow> nat" where
  "width m = (case m of [] \<Rightarrow> 0 | row # _ \<Rightarrow> length row)"

text \<open>\<open>np.pad(mask, ((pad, pad), (pad, pad)), constant_values=False)\<close>\<close>

definition pad_mask :: "nat \<Rightarrow> mask \<Rightarrow> mask" where
  "pad_mask pad m =
     replicate pad (replicate (width m + 2 * pad) False) @
     map (\<lambda>row. replicate pad False @ row @ replicate pad False) m @
     replicate pad (replicate (width m + 2 * pad) False)"

text \<open>The slice \<open>padded[r0:r0 + h, c0:c0 + w]\<close>.\<close>

definition window :: "mask \<Rightarrow> nat \<Rightarrow> nat \<Rightarrow> nat \<Rightarrow> nat \<Rightarrow> mask" where
  "window padded r0 h c0 w = map (\<lambda>row. take w (drop c0 row)) (take h (drop r0 padded))"

text \<open>\<open>out |= other\<close>, cell by cell.\<close>

definition or_mask :: "mask \<Rightarrow> mask \<Rightarrow> mask" where
  "or_mask out other = map2 (map2 (\<or>)) out other"

text \<open>\<open>~mask\<close>\<close>

definition not_mask :: "mask \<Rightarrow> mask" where
  "not_mask m = map (map Not) m"

definition binary_dilate :: "mask \<Rightarrow> int \<Rightarrow> mask" where
  "binary_dilate m radius_px =
     (if radius_px \<le> 0 then m
      else
        let pad = radius_px;
            padded = pad_mask (nat pad) m;
            h = length m;
            w = width m
        in fold (\<lambda>dr out.
                   fold (\<lambda>dc out. or_mask out (window padded (nat (pad + dr)) h (nat (pad + dc)) w))
                     [- radius_px .. radius_px] out)
             [- radius_px .. radius_px]
             (replicate h (replicate w False)))"

definition binary_erode :: "mask \<Rightarrow> int \<Rightarrow> mask" where
  "binary_erode m radius_px =
     (if radius_px \<le> 0 then m else not_mask (binary_dilate (not_mask m) radius_px))"

definition binary_close :: "mask \<Rightarrow> int \<Rightarrow> mask" where
  "binary_close m radius_px =
     (if radius_px \<le> 0 then m else binary_erode (binary_dilate m radius_px) radius_px)"

section \<open>Properties of the morphology engine\<close>

lemma rect_nth: "rect h w m \<Longrightarrow> i < h \<Longrightarrow> length (m ! i) = w"
  by (simp add: rect_def list_all_length)

lemma rect_length: "rect h w m \<Longrightarrow> length m = h"
  by (simp add: rect_def)

lemma rectI: "length m = h \<Longrightarrow> (\<And>i. i < h \<Longrightarrow> length (m ! i) = w) \<Longrightarrow> rect h w m"
  by (simp add: rect_def list_all_length)

lemma rect_width: "rect h w m \<Longrightarrow> 0 < h \<Longrightarrow> width m = w"
  by (cases m) (auto simp: rect_def width_def)

lemma rect_eqI:
  assumes "rect h w a" "rect h w b" "\<And>i j. i < h \<Longrightarrow> j < w \<Longrightarrow> a ! i ! j = b ! i ! j"
  shows "a = b"
proof (rule nth_equalityI)
  show "length a = length b" using assms(1,2) by (simp add: rect_def)
  fix i assume "i < length a"
  then have i: "i < h" using assms(1) by (simp add: rect_def)
  show "a ! i = b ! i"
  proof (rule nth_equalityI)
    show "length (a ! i) = length (b ! i)" using i assms(1,2) by (simp add: rect_nth)
    fix j assume "j < length (a ! i)"
    then have "j < w" using i assms(1) by (simp add: rect_nth)
    then show "a ! i ! j = b ! i ! j" using i assms(3) by simp
  qed
qed

lemma rect_replicate: "rect h w (replicate h (replicate w x))"
  by (rule rectI) simp_all

lemma rect_not_mask: "rect h w m \<Longrightarrow> rect h w (not_mask m)"
  by (auto simp: rect_def not_mask_def list_all_length)

lemma not_mask_nth: "rect h w m \<Longrightarrow> i < h \<Longrightarrow> j < w \<Longrightarrow> not_mask m ! i ! j = (\<not> m ! i ! j)"
  by (simp add: not_mask_def rect_def list_all_length)

lemma not_mask_twice: "not_mask (not_mask m) = m"
  by (simp add: not_mask_def comp_def)

lemma rect_or_mask: "rect h w a \<Longrightarrow> rect h w b \<Longrightarrow> rect h w (or_mask a b)"
  by (rule rectI) (auto simp: or_mask_def rect_def list_all_length)

lemma or_mask_nth:
  "rect h w a \<Longrightarrow> rect h w b \<Longrightarrow> i < h \<Longrightarrow> j < w \<Longrightarrow>
     or_mask a b ! i ! j = (a ! i ! j \<or> b ! i ! j)"
  by (simp add: or_mask_def rect_def list_all_length)

lemma rect_pad_mask:
  assumes "rect h w m" "0 < h"
  shows "rect (h + 2 * p) (w + 2 * p) (pad_mask p m)"
  using assms rect_width [OF assms]
  by (auto simp: rect_def pad_mask_def list_all_iff)

lemma pad_mask_nth:
  assumes "rect h w m" "0 < h" "a < h + 2 * p" "b < w + 2 * p"
  shows "pad_mask p m ! a ! b =
           (p \<le> a \<and> a < p + h \<and> p \<le> b \<and> b < p + w \<and> m ! (a - p) ! (b - p))"
proof -
  have len: "length m = h" using assms(1) by (simp add: rect_def)
  have wm: "width m = w" using assms(1,2) by (rule rect_width)
  consider "a < p" | "p \<le> a" "a < p + h" | "p + h \<le> a" by linarith
  then show ?thesis
  proof cases
    case 1
    then show ?thesis using assms wm by (simp add: pad_mask_def nth_append)
  next
    case 2
    then have ap: "a - p < h" by linarith
    have row: "pad_mask p m ! a = replicate p False @ m ! (a - p) @ replicate p False"
      using 2 ap len by (simp add: pad_mask_def nth_append)
    have lr: "length (m ! (a - p)) = w" using 2 assms(1) by (simp add: rect_nth)
    show ?thesis using 2 assms(4) lr unfolding row by (auto simp: nth_append)
  next
    case 3
    then have n1: "\<not> a < p" "\<not> a - p < h" "a - p - h < p"
      using assms(3) by linarith+
    have "pad_mask p m ! a = replicate (w + 2 * p) False"
      using n1 len wm by (simp add: pad_mask_def nth_append)
    then show ?thesis using 3 assms(4) by simp
  qed
qed

lemma rect_window:
  assumes "rect H W padded" "r0 + h \<le> H" "c0 + w \<le> W"
  shows "rect h w (window padded r0 h c0 w)"
  using assms by (auto simp: rect_def window_def list_all_length)

lemma window_nth:
  assumes "rect H W padded" "r0 + h \<le> H" "c0 + w \<le> W" "i < h" "j < w"
  shows "window padded r0 h c0 w ! i ! j = padded ! (r0 + i) ! (c0 + j)"
  using assms by (auto simp: rect_def window_def list_all_length)

lemma fold_cells:
  assumes "\<And>x out. x \<in> set xs \<Longrightarrow> rect h w out \<Longrightarrow>
             rect h w (g x out) \<and> (\<forall>i<h. \<forall>j<w. g x out ! i ! j = (out ! i ! j \<or> P x i j))"
    and "rect h w out0"
  shows "rect h w (fold g xs out0) \<and>
         (\<forall>i<h. \<forall>j<w. fold g xs out0 ! i ! j = (out0 ! i ! j \<or> (\<exists>x\<in>set xs. P x i j)))"
  using assms
proof (induction xs arbitrary: out0)
  case Nil
  then show ?case by simp
next
  case (Cons x xs)
  have st: "rect h w (g x out0)" "\<forall>i<h. \<forall>j<w. g x out0 ! i ! j = (out0 ! i ! j \<or> P x i j)"
    using Cons.prems(1) [of x out0] Cons.prems(2) by auto
  have ih: "rect h w (fold g xs (g x out0)) \<and>
         (\<forall>i<h. \<forall>j<w. fold g xs (g x out0) ! i ! j = (g x out0 ! i ! j \<or> (\<exists>x\<in>set xs. P x i j)))"
    using Cons.IH [OF _ st(1)] Cons.prems(1) by simp
  show ?case using ih st(2) by auto
qed

text \<open>
  The cells within Chebyshev distance \<open>r\<close> of cell \<open>(i, j)\<close> that lie in the grid.
\<close>

definition near :: "int \<Rightarrow> nat \<Rightarrow> nat \<Rightarrow> nat \<Rightarrow> nat \<Rightarrow> nat \<Rightarrow> nat \<Rightarrow> bool" where
  "near r h w i j i' j' \<longleftrightarrow>
     i' < h \<and> j' < w \<and> \<bar>int i' - int i\<bar> \<le> r \<and> \<bar>int j' - int j\<bar> \<le> r"

lemma near_sym: "near r h w i j i' j' \<Longrightarrow> i < h \<Longrightarrow> j < w \<Longrightarrow> near r h w i' j' i j"
  by (auto simp: near_def)

lemma near_refl: "0 \<le> r \<Longrightarrow> i < h \<Longrightarrow> j < w \<Longrightarrow> near r h w i j i j"
  by (simp add: near_def)

lemma dilate_window_rect:
  assumes m: "rect h w m" and r: "0 < r" and h: "0 < h"
    and dr: "dr \<in> set [- r .. r]" and dc: "dc \<in> set [- r .. r]"
  shows "rect h w (window (pad_mask (nat r) m) (nat (r + dr)) h (nat (r + dc)) w)"
proof -
  have pd: "rect (h + 2 * nat r) (w + 2 * nat r) (pad_mask (nat r) m)"
    using m h by (rule rect_pad_mask)
  have "nat (r + dr) + h \<le> h + 2 * nat r" "nat (r + dc) + w \<le> w + 2 * nat r"
    using dr dc r by auto
  with pd show ?thesis by (rule rect_window)
qed

lemma dilate_window_cell:
  assumes m: "rect h w m" and r: "0 < r" and i: "i < h" and j: "j < w"
    and dr: "dr \<in> set [- r .. r]" and dc: "dc \<in> set [- r .. r]"
  shows "window (pad_mask (nat r) m) (nat (r + dr)) h (nat (r + dc)) w ! i ! j =
           (0 \<le> int i + dr \<and> int i + dr < int h \<and> 0 \<le> int j + dc \<and> int j + dc < int w \<and>
            m ! nat (int i + dr) ! nat (int j + dc))"
proof -
  have h: "0 < h" using i by simp
  define p where "p = nat r"
  have pr: "int p = r" using r by (simp add: p_def)
  have pd: "rect (h + 2 * p) (w + 2 * p) (pad_mask p m)" using m h by (rule rect_pad_mask)
  define r0 where "r0 = nat (r + dr)"
  define c0 where "c0 = nat (r + dc)"
  have r0: "int r0 = r + dr" "r0 + h \<le> h + 2 * p" using dr pr by (auto simp: r0_def)
  have c0: "int c0 = r + dc" "c0 + w \<le> w + 2 * p" using dc pr by (auto simp: c0_def)
  have "window (pad_mask p m) r0 h c0 w ! i ! j = pad_mask p m ! (r0 + i) ! (c0 + j)"
    using pd r0(2) c0(2) i j by (rule window_nth)
  also have "\<dots> = (p \<le> r0 + i \<and> r0 + i < p + h \<and> p \<le> c0 + j \<and> c0 + j < p + w \<and>
                     m ! (r0 + i - p) ! (c0 + j - p))"
    using r0(2) c0(2) i j by (intro pad_mask_nth [OF m h]) auto
  also have "\<dots> = (0 \<le> int i + dr \<and> int i + dr < int h \<and> 0 \<le> int j + dc \<and> int j + dc < int w \<and>
            m ! nat (int i + dr) ! nat (int j + dc))"
  proof -
    have a: "p \<le> r0 + i \<longleftrightarrow> 0 \<le> int i + dr" using r0(1) pr by linarith
    have b: "r0 + i < p + h \<longleftrightarrow> int i + dr < int h" using r0(1) pr by linarith
    have c: "p \<le> c0 + j \<longleftrightarrow> 0 \<le> int j + dc" using c0(1) pr by linarith
    have d: "c0 + j < p + w \<longleftrightarrow> int j + dc < int w" using c0(1) pr by linarith
    have e: "r0 + i - p = nat (int i + dr)" using r0(1) pr by linarith
    have f: "c0 + j - p = nat (int j + dc)" using c0(1) pr by linarith
    show ?thesis unfolding a b c d e f ..
  qed
  finally show "window (pad_mask (nat r) m) (nat (r + dr)) h (nat (r + dc)) w ! i ! j =
           (0 \<le> int i + dr \<and> int i + dr < int h \<and> 0 \<le> int j + dc \<and> int j + dc < int w \<and>
            m ! nat (int i + dr) ! nat (int j + dc))"
    by (simp add: p_def r0_def c0_def)
qed


definition dilate_hit :: "mask \<Rightarrow> nat \<Rightarrow> nat \<Rightarrow> nat \<Rightarrow> nat \<Rightarrow> int \<Rightarrow> int \<Rightarrow> bool" where
  "dilate_hit m h w i j dr dc \<longleftrightarrow>
     0 \<le> int i + dr \<and> int i + dr < int h \<and> 0 \<le> int j + dc \<and> int j + dc < int w \<and>
     m ! nat (int i + dr) ! nat (int j + dc)"

lemma or_mask_empty: "or_mask [] b = []"
  by (simp add: or_mask_def)

lemma fold_or_mask_empty: "fold (\<lambda>x out. or_mask out (f x)) xs [] = []"
  by (induction xs) (simp_all add: or_mask_empty)

lemma fold_fold_or_mask_empty:
  "fold (\<lambda>y out. fold (\<lambda>x out. or_mask out (f y x)) xs out) ys [] = []"
  by (induction ys) (simp_all add: fold_or_mask_empty)

lemma binary_dilate_empty: "binary_dilate [] r = []"
  by (simp add: binary_dilate_def Let_def fold_fold_or_mask_empty)

lemma binary_dilate_fold:
  assumes m: "rect h w m" and r: "0 < r" and h: "0 < h"
  shows "rect h w (binary_dilate m r) \<and>
         (\<forall>i<h. \<forall>j<w. binary_dilate m r ! i ! j =
            (\<exists>dr\<in>set [- r .. r]. \<exists>dc\<in>set [- r .. r]. dilate_hit m h w i j dr dc))"
proof -
  let ?W = "\<lambda>dr dc. window (pad_mask (nat r) m) (nat (r + dr)) h (nat (r + dc)) w"
  let ?inner = "\<lambda>dr out. fold (\<lambda>dc out. or_mask out (?W dr dc)) [- r .. r] out"
  have wm: "width m = w" "length m = h" using m h by (simp_all add: rect_width rect_length)
  have nr: "\<not> r \<le> 0" using r by simp
  have eq: "binary_dilate m r = fold ?inner [- r .. r] (replicate h (replicate w False))"
    by (simp only: binary_dilate_def Let_def wm nr if_False)
  have inner: "rect h w (?inner dr out) \<and>
      (\<forall>i<h. \<forall>j<w. ?inner dr out ! i ! j =
         (out ! i ! j \<or> (\<exists>dc\<in>set [- r .. r]. dilate_hit m h w i j dr dc)))"
    if dr: "dr \<in> set [- r .. r]" and out: "rect h w out" for dr out
  proof (rule fold_cells [where P = "\<lambda>dc i j. dilate_hit m h w i j dr dc"
        and g = "\<lambda>dc out. or_mask out (?W dr dc)" and xs = "[- r .. r]" and h = h and w = w])
    show "rect h w out" by (rule out)
  next
    fix dc and o' :: mask
    assume dc: "dc \<in> set [- r .. r]" and o': "rect h w o'"
    have rw: "rect h w (?W dr dc)" using m r h dr dc by (rule dilate_window_rect)
    have cell: "or_mask o' (?W dr dc) ! i ! j = (o' ! i ! j \<or> dilate_hit m h w i j dr dc)"
      if "i < h" "j < w" for i j
      using or_mask_nth [OF o' rw that] dilate_window_cell [OF m r that dr dc]
      by (simp add: dilate_hit_def)
    show "rect h w (or_mask o' (?W dr dc)) \<and>
        (\<forall>i<h. \<forall>j<w. or_mask o' (?W dr dc) ! i ! j = (o' ! i ! j \<or> dilate_hit m h w i j dr dc))"
      using rect_or_mask [OF o' rw] cell by blast
  qed
  have outer: "rect h w (fold ?inner [- r .. r] (replicate h (replicate w False))) \<and>
      (\<forall>i<h. \<forall>j<w. fold ?inner [- r .. r] (replicate h (replicate w False)) ! i ! j =
         (replicate h (replicate w False) ! i ! j \<or>
          (\<exists>dr\<in>set [- r .. r]. \<exists>dc\<in>set [- r .. r]. dilate_hit m h w i j dr dc)))"
  proof (rule fold_cells [where P = "\<lambda>dr i j. \<exists>dc\<in>set [- r .. r]. dilate_hit m h w i j dr dc"
        and g = ?inner and xs = "[- r .. r]" and h = h and w = w])
    show "rect h w (replicate h (replicate w False))" by (rule rect_replicate)
  next
    fix dr and out :: mask
    assume "dr \<in> set [- r .. r]" "rect h w out"
    then show "rect h w (?inner dr out) \<and>
      (\<forall>i<h. \<forall>j<w. ?inner dr out ! i ! j =
         (out ! i ! j \<or> (\<exists>dc\<in>set [- r .. r]. dilate_hit m h w i j dr dc)))"
      by (rule inner)
  qed
  have z: "\<not> replicate h (replicate w False) ! i ! j" if "i < h" "j < w" for i j
    using that by simp
  show ?thesis unfolding eq using outer z by blast
qed

lemma dilate_hit_near:
  assumes "i < h" "j < w"
  shows "(\<exists>dr\<in>set [- r .. r]. \<exists>dc\<in>set [- r .. r]. dilate_hit m h w i j dr dc) \<longleftrightarrow>
         (\<exists>i' j'. near r h w i j i' j' \<and> m ! i' ! j')"
proof
  assume "\<exists>dr\<in>set [- r .. r]. \<exists>dc\<in>set [- r .. r]. dilate_hit m h w i j dr dc"
  then obtain dr dc where d: "- r \<le> dr" "dr \<le> r" "- r \<le> dc" "dc \<le> r" "dilate_hit m h w i j dr dc"
    by auto
  define i' where "i' = nat (int i + dr)"
  define j' where "j' = nat (int j + dc)"
  have "near r h w i j i' j'" "m ! i' ! j'"
    using d by (auto simp: near_def dilate_hit_def i'_def j'_def)
  then show "\<exists>i' j'. near r h w i j i' j' \<and> m ! i' ! j'" by blast
next
  assume "\<exists>i' j'. near r h w i j i' j' \<and> m ! i' ! j'"
  then obtain i' j' where n: "near r h w i j i' j'" "m ! i' ! j'" by blast
  define dr where "dr = int i' - int i"
  define dc where "dc = int j' - int j"
  have "dr \<in> set [- r .. r]" "dc \<in> set [- r .. r]"
    using n(1) by (auto simp: near_def dr_def dc_def)
  moreover have "dilate_hit m h w i j dr dc"
    using n by (simp add: near_def dilate_hit_def dr_def dc_def)
  ultimately show "\<exists>dr\<in>set [- r .. r]. \<exists>dc\<in>set [- r .. r]. dilate_hit m h w i j dr dc"
    by blast
qed

lemma binary_dilate_rect: "rect h w m \<Longrightarrow> rect h w (binary_dilate m r)"
proof (cases "0 < r")
  case False
  assume "rect h w m"
  with False show ?thesis by (simp add: binary_dilate_def)
next
  case True
  assume m: "rect h w m"
  show ?thesis
  proof (cases "h = 0")
    case True
    with m have "m = []" by (simp add: rect_def)
    with m show ?thesis by (simp add: binary_dilate_empty)
  next
    case False
    with binary_dilate_fold [OF m True] show ?thesis by simp
  qed
qed

lemma binary_dilate_cell:
  assumes "rect h w m" "0 < r" "i < h" "j < w"
  shows "binary_dilate m r ! i ! j \<longleftrightarrow> (\<exists>i' j'. near r h w i j i' j' \<and> m ! i' ! j')"
proof -
  have "0 < h" using assms(3) by simp
  from binary_dilate_fold [OF assms(1,2) this] assms(3,4)
  have "binary_dilate m r ! i ! j =
      (\<exists>dr\<in>set [- r .. r]. \<exists>dc\<in>set [- r .. r]. dilate_hit m h w i j dr dc)" by blast
  then show ?thesis using dilate_hit_near [OF assms(3,4)] by simp
qed

lemma binary_erode_rect: "rect h w m \<Longrightarrow> rect h w (binary_erode m r)"
  by (simp add: binary_erode_def rect_not_mask binary_dilate_rect)

lemma binary_erode_cell:
  assumes "rect h w m" "0 < r" "i < h" "j < w"
  shows "binary_erode m r ! i ! j \<longleftrightarrow> (\<forall>i' j'. near r h w i j i' j' \<longrightarrow> m ! i' ! j')"
proof -
  have nm: "rect h w (not_mask m)" using assms(1) by (rule rect_not_mask)
  have "binary_erode m r ! i ! j = (\<not> binary_dilate (not_mask m) r ! i ! j)"
    using assms(2) not_mask_nth [OF binary_dilate_rect [OF nm] assms(3,4)]
    by (simp add: binary_erode_def)
  also have "\<dots> = (\<not> (\<exists>i' j'. near r h w i j i' j' \<and> not_mask m ! i' ! j'))"
    using binary_dilate_cell [OF nm assms(2,3,4)] by simp
  also have "\<dots> = (\<forall>i' j'. near r h w i j i' j' \<longrightarrow> m ! i' ! j')"
    using not_mask_nth [OF assms(1)] by (auto simp: near_def)
  finally show ?thesis .
qed

lemma binary_close_rect: "rect h w m \<Longrightarrow> rect h w (binary_close m r)"
  by (simp add: binary_close_def binary_erode_rect binary_dilate_rect)

lemma binary_close_cell:
  assumes "rect h w m" "0 < r" "i < h" "j < w"
  shows "binary_close m r ! i ! j \<longleftrightarrow>
           (\<forall>i' j'. near r h w i j i' j' \<longrightarrow> (\<exists>i'' j''. near r h w i' j' i'' j'' \<and> m ! i'' ! j''))"
proof -
  have d: "rect h w (binary_dilate m r)" using assms(1) by (rule binary_dilate_rect)
  have "binary_close m r ! i ! j = binary_erode (binary_dilate m r) r ! i ! j"
    using assms(2) by (simp add: binary_close_def)
  also have "\<dots> = (\<forall>i' j'. near r h w i j i' j' \<longrightarrow> binary_dilate m r ! i' ! j')"
    using d assms(2,3,4) by (rule binary_erode_cell)
  also have "\<dots> = (\<forall>i' j'. near r h w i j i' j' \<longrightarrow>
                       (\<exists>i'' j''. near r h w i' j' i'' j'' \<and> m ! i'' ! j''))"
  proof -
    have "binary_dilate m r ! i' ! j' = (\<exists>i'' j''. near r h w i' j' i'' j'' \<and> m ! i'' ! j'')"
      if "near r h w i j i' j'" for i' j'
    proof -
      from that have "i' < h" "j' < w" by (simp_all add: near_def)
      with assms(1,2) show ?thesis by (rule binary_dilate_cell)
    qed
    then show ?thesis by blast
  qed
  finally show ?thesis .
qed

text \<open>
  Claim C8. Dilation with a radius of at least one sets exactly the cells that have a
  set cell of the mask within Chebyshev distance \<open>r\<close> inside the grid; erosion is the
  complement of the dilation of the complement; and for a radius of zero or below,
  dilation, erosion and closing return the mask unchanged.
\<close>

theorem morphology_characterisation:
  assumes "rect h w m"
  shows "(1 \<le> r \<longrightarrow>
            rect h w (binary_dilate m r) \<and>
            (\<forall>i<h. \<forall>j<w. binary_dilate m r ! i ! j \<longleftrightarrow>
               (\<exists>i' j'. near r h w i j i' j' \<and> m ! i' ! j'))) \<and>
         binary_erode m r = not_mask (binary_dilate (not_mask m) r) \<and>
         (r \<le> 0 \<longrightarrow>
            binary_dilate m r = m \<and> binary_erode m r = m \<and> binary_close m r = m)"
proof (intro conjI impI allI)
  assume "1 \<le> r"
  then have r: "0 < r" by simp
  show "rect h w (binary_dilate m r)" using assms by (rule binary_dilate_rect)
  show "binary_dilate m r ! i ! j \<longleftrightarrow> (\<exists>i' j'. near r h w i j i' j' \<and> m ! i' ! j')"
    if "i < h" "j < w" for i j
    using assms r that by (rule binary_dilate_cell)
next
  show "binary_erode m r = not_mask (binary_dilate (not_mask m) r)"
    by (simp add: binary_erode_def binary_dilate_def not_mask_twice)
next
  assume "r \<le> 0"
  then show "binary_dilate m r = m" "binary_erode m r = m" "binary_close m r = m"
    by (simp_all add: binary_dilate_def binary_erode_def binary_close_def)
qed

text \<open>
  Claim C5. Closing is idempotent on every mask and for every radius.
\<close>

theorem binary_close_idempotent:
  assumes "rect h w m"
  shows "binary_close (binary_close m r) r = binary_close m r"
proof (cases "0 < r")
  case False
  then show ?thesis by (simp add: binary_close_def)
next
  case True
  have c: "rect h w (binary_close m r)" using assms by (rule binary_close_rect)
  show ?thesis
  proof (rule rect_eqI [of h w])
    show "rect h w (binary_close (binary_close m r) r)" using c by (rule binary_close_rect)
    show "rect h w (binary_close m r)" by (rule c)
  next
    fix i j assume ij: "i < h" "j < w"
    let ?D = "\<lambda>i j. \<exists>i' j'. near r h w i j i' j' \<and> m ! i' ! j'"
    let ?C = "\<lambda>i j. \<forall>i' j'. near r h w i j i' j' \<longrightarrow> ?D i' j'"
    have cm: "binary_close m r ! a ! b = ?C a b" if "a < h" "b < w" for a b
      using assms True that by (rule binary_close_cell)
    have cc: "binary_close (binary_close m r) r ! i ! j =
        (\<forall>i' j'. near r h w i j i' j' \<longrightarrow>
           (\<exists>i'' j''. near r h w i' j' i'' j'' \<and> binary_close m r ! i'' ! j''))"
      using c True ij by (rule binary_close_cell)
    have "(\<forall>i' j'. near r h w i j i' j' \<longrightarrow>
           (\<exists>i'' j''. near r h w i' j' i'' j'' \<and> binary_close m r ! i'' ! j'')) = ?C i j"
    proof
      assume a: "\<forall>i' j'. near r h w i j i' j' \<longrightarrow>
           (\<exists>i'' j''. near r h w i' j' i'' j'' \<and> binary_close m r ! i'' ! j'')"
      show "?C i j"
      proof (intro allI impI)
        fix i' j' assume n: "near r h w i j i' j'"
        then have b: "i' < h" "j' < w" by (simp_all add: near_def)
        from a n obtain s t where st: "near r h w i' j' s t" "binary_close m r ! s ! t" by blast
        from st(1) have sb: "s < h" "t < w" by (simp_all add: near_def)
        from st(2) have "?C s t" using cm [OF sb] by simp
        moreover have "near r h w s t i' j'" using st(1) b by (rule near_sym)
        ultimately show "?D i' j'" by blast
      qed
    next
      assume a: "?C i j"
      show "\<forall>i' j'. near r h w i j i' j' \<longrightarrow>
           (\<exists>i'' j''. near r h w i' j' i'' j'' \<and> binary_close m r ! i'' ! j'')"
      proof (intro allI impI)
        fix i' j' assume n: "near r h w i j i' j'"
        have "near r h w i' j' i j" using n ij by (rule near_sym)
        moreover have "binary_close m r ! i ! j" using a cm [OF ij] by simp
        ultimately show "\<exists>i'' j''. near r h w i' j' i'' j'' \<and> binary_close m r ! i'' ! j''"
          by blast
      qed
    qed
    then show "binary_close (binary_close m r) r ! i ! j = binary_close m r ! i ! j"
      using cc cm [OF ij] by simp
  qed
qed

lemma rect_example:
  "rect 3 4 [[False, False, False, False],
             [False, True, False, False],
             [False, False, False, False]]"
  by (simp add: rect_def)

lemma dilate_example:
  "binary_dilate [[False, False, False, False],
                  [False, True, False, False],
                  [False, False, False, False]] 1 =
     [[True, True, True, False],
      [True, True, True, False],
      [True, True, True, False]]"
  by code_simp

lemma close_example:
  "binary_close [[False, False, False, False],
                 [False, True, False, False],
                 [False, False, False, False]] 1 =
     [[True, True, False, False],
      [True, True, False, False],
      [True, True, False, False]]"
  by code_simp

theorem morphology_characterisation_witness:
  "rect 3 4 [[False, False, False, False],
             [False, True, False, False],
             [False, False, False, False]] \<and>
   binary_dilate [[False, False, False, False],
                  [False, True, False, False],
                  [False, False, False, False]] 1 =
     [[True, True, True, False],
      [True, True, True, False],
      [True, True, True, False]] \<and>
   binary_erode [[False, False, False, False],
                 [False, True, False, False],
                 [False, False, False, False]] 1 =
     not_mask (binary_dilate (not_mask [[False, False, False, False],
                                        [False, True, False, False],
                                        [False, False, False, False]]) 1) \<and>
   binary_close [[False, False, False, False],
                 [False, True, False, False],
                 [False, False, False, False]] 0 =
     [[False, False, False, False],
      [False, True, False, False],
      [False, False, False, False]]"
proof -
  let ?m = "[[False, False, False, False],
             [False, True, False, False],
             [False, False, False, False]]"
  from morphology_characterisation [OF rect_example, of 1]
  have e: "binary_erode ?m 1 = not_mask (binary_dilate (not_mask ?m) 1)" by (elim conjE)
  from morphology_characterisation [OF rect_example, of 0]
  have z: "binary_close ?m 0 = ?m" by simp
  show ?thesis by (intro conjI rect_example dilate_example e z)
qed

theorem binary_close_idempotent_witness:
  "rect 3 4 [[False, False, False, False],
             [False, True, False, False],
             [False, False, False, False]] \<and>
   binary_close [[False, False, False, False],
                 [False, True, False, False],
                 [False, False, False, False]] 1 =
     [[True, True, False, False],
      [True, True, False, False],
      [True, True, False, False]] \<and>
   binary_close (binary_close [[False, False, False, False],
                               [False, True, False, False],
                               [False, False, False, False]] 1) 1 =
     [[True, True, False, False],
      [True, True, False, False],
      [True, True, False, False]]"
proof -
  let ?m = "[[False, False, False, False],
             [False, True, False, False],
             [False, False, False, False]]"
  have i: "binary_close (binary_close ?m 1) 1 = binary_close ?m 1"
    using rect_example by (rule binary_close_idempotent)
  show ?thesis using i unfolding close_example by (intro conjI rect_example refl)
qed

section \<open>Skeletonizer: iterative thinning\<close>

text \<open>
  \<open>_zhang_suen_thin\<close> works on \<open>img = mask.astype(np.uint8)\<close>, an array of zeros and
  ones. Its cells are modelled as natural numbers: every sum the function forms is a sum
  of at most eight cells, so the eight-bit arithmetic of the source never wraps.
\<close>

type_synonym image = "nat list list"

definition astype_uint8 :: "mask \<Rightarrow> image" where
  "astype_uint8 m = map (map (\<lambda>b. if b then 1 else 0)) m"

definition astype_bool :: "image \<Rightarrow> mask" where
  "astype_bool a = map (map (\<lambda>v. v \<noteq> 0)) a"

text \<open>
  \<open>np.roll(a, k, axis=0)\<close> on the list of rows: element \<open>i\<close> of the result is element
  \<open>(i - k) mod n\<close> of the argument. Along axis 1 every row is rolled.
\<close>

definition roll :: "int \<Rightarrow> 'a list \<Rightarrow> 'a list" where
  "roll k xs = (if xs = [] then [] else rotate (nat ((- k) mod int (length xs))) xs)"

definition roll0 :: "int \<Rightarrow> 'a list list \<Rightarrow> 'a list list" where
  "roll0 k a = roll k a"

definition roll1 :: "int \<Rightarrow> 'a list list \<Rightarrow> 'a list list" where
  "roll1 k a = map (roll k) a"

definition neighbors8 :: "image \<Rightarrow> image list" where
  "neighbors8 a =
     (let P2 = roll0 (- 1) a;
          P3 = roll1 1 P2;
          P4 = roll1 1 a;
          P5 = roll0 1 P4;
          P6 = roll0 1 a;
          P7 = roll1 (- 1) P6;
          P8 = roll1 (- 1) a;
          P9 = roll0 (- 1) P8
      in [P2, P3, P4, P5, P6, P7, P8, P9])"

text \<open>\<open>clear_borders\<close>: first and last row, first and last column set to zero.\<close>

definition zero_row :: "nat \<Rightarrow> image \<Rightarrow> image" where
  "zero_row i a = a[i := map (\<lambda>v. 0) (a ! i)]"

definition clear_borders :: "image \<Rightarrow> image" where
  "clear_borders a =
     (let a = zero_row 0 a;
          a = zero_row (length a - 1) a;
          a = map (\<lambda>row. row[0 := 0]) a;
          a = map (\<lambda>row. row[length row - 1 := 0]) a
      in a)"

text \<open>Cell-wise operations of numpy on arrays of one shape.\<close>

definition grid_map :: "('a \<Rightarrow> 'b) \<Rightarrow> 'a list list \<Rightarrow> 'b list list" where
  "grid_map f a = map (map f) a"

definition grid_map2 :: "('a \<Rightarrow> 'b \<Rightarrow> 'c) \<Rightarrow> 'a list list \<Rightarrow> 'b list list \<Rightarrow> 'c list list" where
  "grid_map2 f a b = map2 (map2 f) a b"

definition grid_sum :: "image \<Rightarrow> image list \<Rightarrow> image" where
  "grid_sum z gs = foldl (grid_map2 (+)) z gs"

definition grid_all :: "mask list \<Rightarrow> mask" where
  "grid_all gs = foldl (grid_map2 (\<and>)) (hd gs) (tl gs)"

definition grid_any :: "mask \<Rightarrow> bool" where
  "grid_any m = list_ex (list_ex id) m"

text \<open>\<open>B\<close>: the number of set neighbours; \<open>A\<close>: the number of 0-to-1 transitions around the ring.\<close>

definition count_B :: "image list \<Rightarrow> image" where
  "count_B P = grid_sum (hd P) (tl P)"

definition count_A :: "image \<Rightarrow> image list \<Rightarrow> image" where
  "count_A img P =
     (let seq = P @ [hd P]
      in grid_sum (grid_map (\<lambda>v. 0) img)
           (map (\<lambda>k. grid_map2 (\<lambda>u v. if u = 0 \<and> v = 1 then 1 else 0) (seq ! k) (seq ! Suc k))
              [0 ..< 8]))"

text \<open>
  The mask of removable pixels of one sub-iteration; \<open>ia, ib, ic\<close> and \<open>ja, jb, jc\<close>
  are the positions in the ring of the two neighbour triples whose products must vanish.
\<close>

definition prod3_zero :: "image list \<Rightarrow> nat \<Rightarrow> nat \<Rightarrow> nat \<Rightarrow> mask" where
  "prod3_zero P i j k =
     grid_map (\<lambda>v. v = 0) (grid_map2 (*) (grid_map2 (*) (P ! i) (P ! j)) (P ! k))"

definition removable :: "image \<Rightarrow> nat \<times> nat \<times> nat \<Rightarrow> nat \<times> nat \<times> nat \<Rightarrow> mask" where
  "removable img t1 t2 =
     (let P = neighbors8 img;
          B = count_B P;
          A = count_A img P
      in case (t1, t2) of ((ia, ib, ic), (ja, jb, jc)) \<Rightarrow>
           grid_all [grid_map (\<lambda>v. v = 1) img,
                     grid_map (\<lambda>v. 2 \<le> v) B,
                     grid_map (\<lambda>v. v \<le> 6) B,
                     grid_map (\<lambda>v. v = 1) A,
                     prod3_zero P ia ib ic,
                     prod3_zero P ja jb jc])"

text \<open>\<open>img[m] = 0\<close>\<close>

definition zero_where :: "mask \<Rightarrow> image \<Rightarrow> image" where
  "zero_where m img = grid_map2 (\<lambda>b v. if b then 0 else v) m img"

text \<open>
  One sub-iteration: with \<open>P = [P2, ..., P9]\<close> the first pass tests \<open>P2 * P4 * P6\<close> and
  \<open>P4 * P6 * P8\<close> (ring positions 0, 2, 4 and 2, 4, 6), the second \<open>P2 * P4 * P8\<close> and
  \<open>P2 * P6 * P8\<close> (positions 0, 2, 6 and 0, 4, 6).
\<close>

definition thin_pass :: "nat \<times> nat \<times> nat \<Rightarrow> nat \<times> nat \<times> nat \<Rightarrow> image \<times> bool \<Rightarrow> image \<times> bool" where
  "thin_pass t1 t2 st =
     (case st of (img, changed) \<Rightarrow>
        let m = removable img t1 t2;
            (img, changed) = (if grid_any m then (zero_where m img, True) else (img, changed))
        in (clear_borders img, changed))"

text \<open>The body of the \<open>while\<close> loop: \<open>changed\<close> is reset, then the two passes run.\<close>

definition thin_iteration :: "image \<Rightarrow> image \<times> bool" where
  "thin_iteration img =
     thin_pass (0, 2, 6) (0, 4, 6) (thin_pass (0, 2, 4) (2, 4, 6) (img, False))"

function thin_loop :: "image \<Rightarrow> bool \<Rightarrow> int \<Rightarrow> int \<Rightarrow> image \<times> int" where
  "thin_loop img changed it max_iter =
     (if changed \<and> it < max_iter then
        (case thin_iteration img of (img', changed') \<Rightarrow> thin_loop img' changed' (it + 1) max_iter)
      else (img, it))"
  by pat_completeness auto
termination
  by (relation "measure (\<lambda>(img, changed, it, max_iter). nat (max_iter - it))") auto

text \<open>
  \<open>_zhang_suen_thin\<close>, returning next to the skeleton the number of iterations the
  loop ran (the value the source logs). The first \<open>clear_borders\<close> raises \<open>IndexError\<close>
  on an array without rows or without columns.
\<close>

definition zhang_suen_thin_run :: "mask \<Rightarrow> int \<Rightarrow> py_error + (mask \<times> int)" where
  "zhang_suen_thin_run m max_iter =
     (if m = [] \<or> width m = 0 then Inl IndexError
      else
        case thin_loop (clear_borders (astype_uint8 m)) True 0 max_iter of
          (img, it) \<Rightarrow> Inr (astype_bool img, it))"

definition zhang_suen_thin :: "mask \<Rightarrow> int \<Rightarrow> py_error + mask" where
  "zhang_suen_thin m max_iter =
     (case zhang_suen_thin_run m max_iter of Inl e \<Rightarrow> Inl e | Inr (skel, it) \<Rightarrow> Inr skel)"

section \<open>Properties of thinning\<close>

text \<open>
  \<open>clears_only h w old new\<close>: the image \<open>new\<close> has the shape of \<open>old\<close> and every cell of
  it is zero or the cell of \<open>old\<close>. \<open>fg_count\<close> is the number of foreground cells.
\<close>

definition clears_only :: "nat \<Rightarrow> nat \<Rightarrow> image \<Rightarrow> image \<Rightarrow> bool" where
  "clears_only h w old new \<longleftrightarrow>
     rect h w new \<and> (\<forall>i<h. \<forall>j<w. new ! i ! j = 0 \<or> new ! i ! j = old ! i ! j)"

definition fg_count :: "image \<Rightarrow> nat" where
  "fg_count a = sum_list (map (\<lambda>row. length (filter (\<lambda>v. v \<noteq> 0) row)) a)"

lemma rect_set: "rect h w a \<longleftrightarrow> length a = h \<and> (\<forall>row\<in>set a. length row = w)"
  by (simp add: rect_def list_all_iff)

lemma rect_roll0: "rect h w a \<Longrightarrow> rect h w (roll0 k a)"
  by (auto simp: rect_set roll0_def roll_def)

lemma rect_roll1: "rect h w a \<Longrightarrow> rect h w (roll1 k a)"
  by (auto simp: rect_set roll1_def roll_def)

lemma rect_grid_map: "rect h w a \<Longrightarrow> rect h w (grid_map f a)"
  by (auto simp: rect_set grid_map_def)

lemma rect_grid_map2: "rect h w a \<Longrightarrow> rect h w b \<Longrightarrow> rect h w (grid_map2 f a b)"
  by (rule rectI) (auto simp: grid_map2_def rect_def list_all_length)

lemma grid_map2_nth:
  "rect h w a \<Longrightarrow> rect h w b \<Longrightarrow> i < h \<Longrightarrow> j < w \<Longrightarrow>
     grid_map2 f a b ! i ! j = f (a ! i ! j) (b ! i ! j)"
  by (simp add: grid_map2_def rect_def list_all_length)

lemma rect_foldl_grid_map2:
  "rect h w z \<Longrightarrow> \<forall>g\<in>set gs. rect h w g \<Longrightarrow> rect h w (foldl (grid_map2 f) z gs)"
  by (induction gs arbitrary: z) (simp_all add: rect_grid_map2)

lemma rect_neighbors8:
  assumes "rect h w a"
  shows "length (neighbors8 a) = 8" and "\<forall>P\<in>set (neighbors8 a). rect h w P"
  using assms by (simp_all add: neighbors8_def Let_def rect_roll0 rect_roll1)

lemma rect_nth_neighbors8:
  "rect h w a \<Longrightarrow> k < 8 \<Longrightarrow> rect h w (neighbors8 a ! k)"
  using rect_neighbors8 [of h w a] by (metis nth_mem)

lemma rect_prod3_zero:
  "rect h w a \<Longrightarrow> i < 8 \<Longrightarrow> j < 8 \<Longrightarrow> k < 8 \<Longrightarrow> rect h w (prod3_zero (neighbors8 a) i j k)"
  by (simp add: prod3_zero_def rect_grid_map rect_grid_map2 rect_nth_neighbors8)

lemma rect_count_B: "rect h w a \<Longrightarrow> rect h w (count_B (neighbors8 a))"
proof -
  assume a: "rect h w a"
  obtain p ps where P: "neighbors8 a = p # ps"
    using rect_neighbors8(1) [OF a] by (cases "neighbors8 a") auto
  with rect_neighbors8(2) [OF a] have "rect h w p" "\<forall>g\<in>set ps. rect h w g" by auto
  then show ?thesis by (simp add: count_B_def grid_sum_def P rect_foldl_grid_map2)
qed

lemma rect_count_A: "rect h w a \<Longrightarrow> rect h w (count_A a (neighbors8 a))"
proof -
  assume a: "rect h w a"
  obtain p ps where P: "neighbors8 a = p # ps"
    using rect_neighbors8(1) [OF a] by (cases "neighbors8 a") auto
  have len: "length (neighbors8 a @ [hd (neighbors8 a)]) = 9"
    using rect_neighbors8(1) [OF a] by simp
  have all: "\<forall>g\<in>set (neighbors8 a @ [hd (neighbors8 a)]). rect h w g"
    using rect_neighbors8(2) [OF a] P by auto
  have nth: "rect h w ((neighbors8 a @ [hd (neighbors8 a)]) ! k)" if "k < 9" for k
    using all len that by (metis nth_mem)
  show ?thesis
    unfolding count_A_def Let_def grid_sum_def
    by (rule rect_foldl_grid_map2) (auto simp: rect_grid_map a intro!: rect_grid_map2 nth)
qed

lemma rect_removable:
  assumes "rect h w a" "ia < 8" "ib < 8" "ic < 8" "ja < 8" "jb < 8" "jc < 8"
  shows "rect h w (removable a (ia, ib, ic) (ja, jb, jc))"
  using assms
  by (simp add: removable_def Let_def grid_all_def rect_grid_map2 rect_grid_map
      rect_count_A rect_count_B rect_prod3_zero)

lemma rect_zero_where: "rect h w m \<Longrightarrow> rect h w a \<Longrightarrow> rect h w (zero_where m a)"
  by (simp add: zero_where_def rect_grid_map2)

lemma zero_where_nth:
  "rect h w m \<Longrightarrow> rect h w a \<Longrightarrow> i < h \<Longrightarrow> j < w \<Longrightarrow>
     zero_where m a ! i ! j = (if m ! i ! j then 0 else a ! i ! j)"
  by (simp add: zero_where_def grid_map2_nth)

lemma rect_zero_row: "rect h w a \<Longrightarrow> rect h w (zero_row i a)"
proof (cases "i < length a")
  case True
  assume "rect h w a"
  with True show ?thesis
    by (intro rectI) (auto simp: zero_row_def rect_def list_all_length nth_list_update)
next
  case False
  assume "rect h w a"
  with False show ?thesis by (simp add: zero_row_def list_update_beyond not_less)
qed

lemma zero_row_nth:
  "rect h w a \<Longrightarrow> i < h \<Longrightarrow> j < w \<Longrightarrow>
     zero_row k a ! i ! j = (if i = k then 0 else a ! i ! j)"
  by (simp add: zero_row_def rect_def list_all_length nth_list_update)

lemma rect_clear_borders: "rect h w a \<Longrightarrow> rect h w (clear_borders a)"
proof -
  assume a: "rect h w a"
  have "rect h w (zero_row (length (zero_row 0 a) - 1) (zero_row 0 a))"
    using a by (simp add: rect_zero_row)
  then show ?thesis
    unfolding clear_borders_def Let_def by (auto simp: rect_set)
qed

lemma clear_borders_nth:
  assumes "rect h w a" "i < h" "j < w"
  shows "clear_borders a ! i ! j =
           (if i = 0 \<or> i = h - 1 \<or> j = 0 \<or> j = w - 1 then 0 else a ! i ! j)"
proof -
  define b where "b = zero_row (length (zero_row 0 a) - 1) (zero_row 0 a)"
  have z: "rect h w (zero_row 0 a)" using assms(1) by (rule rect_zero_row)
  have b: "rect h w b" unfolding b_def using z by (rule rect_zero_row)
  have lz: "length (zero_row 0 a) = h" using z by (simp add: rect_def)
  have z0: "zero_row 0 a ! i ! j = (if i = 0 then 0 else a ! i ! j)"
    using assms by (rule zero_row_nth)
  have z1: "b ! i ! j = (if i = h - 1 then 0 else zero_row 0 a ! i ! j)"
    unfolding b_def lz using z assms(2,3) by (rule zero_row_nth)
  have bn: "b ! i ! j = (if i = 0 \<or> i = h - 1 then 0 else a ! i ! j)"
  proof (cases "i = h - 1")
    case True
    then show ?thesis using z1 by simp
  next
    case False
    then have "b ! i ! j = zero_row 0 a ! i ! j" using z1 by simp
    then show ?thesis using False z0 by simp
  qed
  have lb: "length b = h" "length (b ! i) = w"
    using b assms(2) by (simp_all add: rect_def list_all_length)
  have "clear_borders a = map (\<lambda>row. row[length row - 1 := 0]) (map (\<lambda>row. row[0 := 0]) b)"
    by (simp add: clear_borders_def Let_def b_def)
  then have "clear_borders a ! i ! j = ((b ! i)[0 := 0])[w - 1 := 0] ! j"
    using lb assms(2) by simp
  also have "\<dots> = (if j = 0 \<or> j = w - 1 then 0 else b ! i ! j)"
    using lb assms(3) by (auto simp: nth_list_update)
  finally show ?thesis using bn by auto
qed

lemma clears_only_refl: "rect h w a \<Longrightarrow> clears_only h w a a"
  by (simp add: clears_only_def)

lemma clears_only_trans:
  "clears_only h w a b \<Longrightarrow> clears_only h w b c \<Longrightarrow> clears_only h w a c"
  unfolding clears_only_def by metis

lemma clears_only_zero_where:
  "rect h w m \<Longrightarrow> rect h w a \<Longrightarrow> clears_only h w a (zero_where m a)"
  by (simp add: clears_only_def rect_zero_where zero_where_nth)

lemma clears_only_clear_borders:
  "rect h w a \<Longrightarrow> clears_only h w a (clear_borders a)"
  by (simp add: clears_only_def rect_clear_borders clear_borders_nth)

lemma clears_only_thin_pass:
  assumes "rect h w img" "ia < 8" "ib < 8" "ic < 8" "ja < 8" "jb < 8" "jc < 8"
  shows "clears_only h w img (fst (thin_pass (ia, ib, ic) (ja, jb, jc) (img, changed)))"
proof -
  let ?m = "removable img (ia, ib, ic) (ja, jb, jc)"
  have m: "rect h w ?m" using assms by (rule rect_removable)
  show ?thesis
  proof (cases "grid_any ?m")
    case True
    then have eq: "fst (thin_pass (ia, ib, ic) (ja, jb, jc) (img, changed)) =
        clear_borders (zero_where ?m img)"
      by (simp add: thin_pass_def Let_def)
    have "clears_only h w img (zero_where ?m img)"
      using m assms(1) by (rule clears_only_zero_where)
    moreover have "clears_only h w (zero_where ?m img) (clear_borders (zero_where ?m img))"
      using m assms(1) by (intro clears_only_clear_borders rect_zero_where)
    ultimately show ?thesis unfolding eq by (rule clears_only_trans)
  next
    case False
    then have eq: "fst (thin_pass (ia, ib, ic) (ja, jb, jc) (img, changed)) = clear_borders img"
      by (simp add: thin_pass_def Let_def)
    show ?thesis unfolding eq using assms(1) by (rule clears_only_clear_borders)
  qed
qed

lemma clears_only_thin_iteration:
  assumes "rect h w img"
  shows "clears_only h w img (fst (thin_iteration img))"
proof -
  obtain img1 ch1 where p1: "thin_pass (0, 2, 4) (2, 4, 6) (img, False) = (img1, ch1)"
    by (cases "thin_pass (0, 2, 4) (2, 4, 6) (img, False)")
  have c1: "clears_only h w img img1"
    using clears_only_thin_pass [OF assms, of 0 2 4 2 4 6 False] p1 by simp
  then have r1: "rect h w img1" by (simp add: clears_only_def)
  have c2: "clears_only h w img1 (fst (thin_pass (0, 2, 6) (0, 4, 6) (img1, ch1)))"
    using r1 by (rule clears_only_thin_pass) simp_all
  show ?thesis unfolding thin_iteration_def p1 using c1 c2 by (rule clears_only_trans)
qed

lemma filter_length_mono:
  "list_all2 (\<lambda>x y. P x \<longrightarrow> Q y) xs ys \<Longrightarrow> length (filter P xs) \<le> length (filter Q ys)"
  by (induction rule: list_all2_induct) auto

lemma sum_list_map_mono2:
  "list_all2 (\<lambda>x y. f x \<le> (g y :: nat)) xs ys \<Longrightarrow> sum_list (map f xs) \<le> sum_list (map g ys)"
  by (induction rule: list_all2_induct) auto

lemma fg_count_mono:
  assumes "rect h w old" "clears_only h w old new"
  shows "fg_count new \<le> fg_count old"
proof -
  have n: "rect h w new" and c: "\<forall>i<h. \<forall>j<w. new ! i ! j = 0 \<or> new ! i ! j = old ! i ! j"
    using assms(2) by (simp_all add: clears_only_def)
  have rows: "length (filter (\<lambda>v. v \<noteq> 0) (new ! i)) \<le> length (filter (\<lambda>v. v \<noteq> 0) (old ! i))"
    if i: "i < h" for i
  proof (rule filter_length_mono)
    have "length (new ! i) = w" "length (old ! i) = w"
      using n assms(1) i by (simp_all add: rect_nth)
    moreover have "new ! i ! j \<noteq> 0 \<longrightarrow> old ! i ! j \<noteq> 0" if "j < w" for j
      using c i that by metis
    ultimately show "list_all2 (\<lambda>x y. x \<noteq> 0 \<longrightarrow> y \<noteq> 0) (new ! i) (old ! i)"
      by (simp add: list_all2_conv_all_nth)
  qed
  have "list_all2 (\<lambda>x y. length (filter (\<lambda>v. v \<noteq> 0) x) \<le> length (filter (\<lambda>v. v \<noteq> 0) y)) new old"
    using rows n assms(1) by (simp add: list_all2_conv_all_nth rect_def)
  then show ?thesis unfolding fg_count_def by (rule sum_list_map_mono2)
qed

declare thin_loop.simps [simp del]

lemma thin_loop_bound:
  "thin_loop img changed it max_iter = (img', it') \<Longrightarrow>
     it \<le> it' \<and> it' \<le> max it max_iter \<and>
     img' = ((\<lambda>a. fst (thin_iteration a)) ^^ nat (it' - it)) img"
proof (induction img changed it max_iter arbitrary: img' it' rule: thin_loop.induct)
  case (1 img changed it max_iter)
  show ?case
  proof (cases "changed \<and> it < max_iter")
    case False
    with "1.prems" have "img' = img" "it' = it"
      by (subst (asm) thin_loop.simps, simp)+
    then show ?thesis by simp
  next
    case True
    obtain img1 ch1 where st: "thin_iteration img = (img1, ch1)"
      by (cases "thin_iteration img")
    have eq: "thin_loop img changed it max_iter = thin_loop img1 ch1 (it + 1) max_iter"
      by (subst thin_loop.simps) (simp add: True st)
    from "1.IH" [OF True st [symmetric], of img' it'] "1.prems"
    have ih: "it + 1 \<le> it'" "it' \<le> max (it + 1) max_iter"
      "img' = ((\<lambda>a. fst (thin_iteration a)) ^^ nat (it' - (it + 1))) img1"
      unfolding eq by simp_all
    have n: "nat (it' - it) = Suc (nat (it' - (it + 1)))" using ih(1) by simp
    have "img' = ((\<lambda>a. fst (thin_iteration a)) ^^ nat (it' - it)) img"
      unfolding n funpow_Suc_right using ih(3) st by simp
    then show ?thesis using ih(1,2) True by simp
  qed
qed

text \<open>
  Claim C2. On every mask with at least one row and one column the thinning routine
  returns; it ran \<open>it\<close> iterations of the loop body, at most \<open>max_iter\<close> (none when the cap
  is zero or negative), and its result is the loop body applied \<open>it\<close> times to the
  border-cleared input. Every application of the loop body only clears pixels, so the
  foreground count never increases from one iteration to the next.
\<close>

theorem zhang_suen_thin_bounded:
  assumes "rect h w m" "0 < h" "0 < w"
  shows "\<exists>skel it. zhang_suen_thin_run m max_iter = Inr (skel, it) \<and>
           0 \<le> it \<and> it \<le> max 0 max_iter \<and>
           skel = astype_bool (((\<lambda>a. fst (thin_iteration a)) ^^ nat it)
                    (clear_borders (astype_uint8 m))) \<and>
           (\<forall>img. rect h w img \<longrightarrow>
              clears_only h w img (fst (thin_iteration img)) \<and>
              fg_count (fst (thin_iteration img)) \<le> fg_count img)"
proof -
  have ne: "m \<noteq> []" "width m \<noteq> 0"
    using assms by (auto simp: rect_def rect_width)
  obtain img it where l: "thin_loop (clear_borders (astype_uint8 m)) True 0 max_iter = (img, it)"
    by (cases "thin_loop (clear_borders (astype_uint8 m)) True 0 max_iter")
  have run: "zhang_suen_thin_run m max_iter = Inr (astype_bool img, it)"
    using ne by (simp add: zhang_suen_thin_run_def l)
  from thin_loop_bound [OF l]
  have b: "0 \<le> it" "it \<le> max 0 max_iter"
    "img = ((\<lambda>a. fst (thin_iteration a)) ^^ nat it) (clear_borders (astype_uint8 m))"
    by simp_all
  have step: "clears_only h w a (fst (thin_iteration a)) \<and>
      fg_count (fst (thin_iteration a)) \<le> fg_count a" if "rect h w a" for a
    using that clears_only_thin_iteration [OF that] fg_count_mono by blast
  show ?thesis
  proof (intro exI [of _ "astype_bool img"] exI [of _ it] conjI allI impI)
    show "zhang_suen_thin_run m max_iter = Inr (astype_bool img, it)" by (rule run)
    show "0 \<le> it" by (rule b)
    show "it \<le> max 0 max_iter" by (rule b)
    show "astype_bool img = astype_bool (((\<lambda>a. fst (thin_iteration a)) ^^ nat it)
                    (clear_borders (astype_uint8 m)))" using b(3) by simp
    show "clears_only h w a (fst (thin_iteration a))" if "rect h w a" for a
      using step [OF that] by simp
    show "fg_count (fst (thin_iteration a)) \<le> fg_count a" if "rect h w a" for a
      using step [OF that] by simp
  qed
qed

section \<open>Skeletonizer: chamfer distance and ridge extraction\<close>

definition set_cell :: "'a list list \<Rightarrow> nat \<Rightarrow> nat \<Rightarrow> 'a \<Rightarrow> 'a list list" where
  "set_cell g r c v = g[r := (g ! r)[c := v]]"

text \<open>
  The body of the forward raster pass of \<open>_distance_transform_chamfer\<close> at cell
  \<open>(r, c)\<close>, and of the backward pass. The distances are 32-bit integers in the source;
  they never exceed \<open>10 ^ 9 + 4\<close>, so unbounded integers behave alike.
\<close>

definition chamfer_fwd_cell :: "mask \<Rightarrow> nat \<Rightarrow> nat \<times> nat \<Rightarrow> int list list \<Rightarrow> int list list" where
  "chamfer_fwd_cell m w rc dmap =
     (case rc of (r, c) \<Rightarrow>
        if \<not> m ! r ! c then dmap
        else
          let d = dmap ! r ! c;
              d = (if r > 0 then
                     let d = min d (dmap ! (r - 1) ! c + 3);
                         d = (if c > 0 then min d (dmap ! (r - 1) ! (c - 1) + 4) else d);
                         d = (if c + 1 < w then min d (dmap ! (r - 1) ! (c + 1) + 4) else d)
                     in d
                   else d);
              d = (if c > 0 then min d (dmap ! r ! (c - 1) + 3) else d)
          in set_cell dmap r c d)"

definition chamfer_bwd_cell :: "mask \<Rightarrow> nat \<Rightarrow> nat \<Rightarrow> nat \<times> nat \<Rightarrow> int list list \<Rightarrow> int list list" where
  "chamfer_bwd_cell m h w rc dmap =
     (case rc of (r, c) \<Rightarrow>
        if \<not> m ! r ! c then dmap
        else
          let d = dmap ! r ! c;
              d = (if r + 1 < h then
                     let d = min d (dmap ! (r + 1) ! c + 3);
                         d = (if c > 0 then min d (dmap ! (r + 1) ! (c - 1) + 4) else d);
                         d = (if c + 1 < w then min d (dmap ! (r + 1) ! (c + 1) + 4) else d)
                     in d
                   else d);
              d = (if c + 1 < w then min d (dmap ! r ! (c + 1) + 3) else d)
          in set_cell dmap r c d)"

text \<open>The cells \<open>(r, c)\<close> with \<open>r\<close> in \<open>range(r0, r1)\<close> and \<open>c\<close> in \<open>range(c0, c1)\<close>, in raster order.\<close>

definition raster :: "nat \<Rightarrow> nat \<Rightarrow> nat \<Rightarrow> nat \<Rightarrow> (nat \<times> nat) list" where
  "raster r0 r1 c0 c1 = concat (map (\<lambda>r. map (\<lambda>c. (r, c)) [c0 ..< c1]) [r0 ..< r1])"

definition distance_transform_chamfer :: "mask \<Rightarrow> int list list" where
  "distance_transform_chamfer m =
     (let h = length m;
          w = width m;
          dmap = map (map (\<lambda>b. if b then 10 ^ 9 else 0)) m;
          dmap = fold (chamfer_fwd_cell m w) (raster 0 h 0 w) dmap;
          dmap = fold (chamfer_bwd_cell m h w) (rev (raster 0 h 0 w)) dmap
      in dmap)"

text \<open>\<open>dist[r - 1:r + 2, c - 1:c + 2].max()\<close>\<close>

definition local_max :: "int list list \<Rightarrow> nat \<Rightarrow> nat \<Rightarrow> int" where
  "local_max dmap r c =
     Max (set (map (\<lambda>rc. dmap ! fst rc ! snd rc) (raster (r - 1) (r + 2) (c - 1) (c + 2))))"

definition ridge_cell :: "mask \<Rightarrow> int list list \<Rightarrow> nat \<times> nat \<Rightarrow> mask \<Rightarrow> mask" where
  "ridge_cell m dmap rc skel =
     (case rc of (r, c) \<Rightarrow>
        if \<not> m ! r ! c then skel
        else
          let d = dmap ! r ! c
          in if d = 0 then skel
             else if d \<ge> local_max dmap r c then set_cell skel r c True
             else skel)"

definition ridge_skeleton_from_dist :: "mask \<Rightarrow> int list list \<Rightarrow> mask" where
  "ridge_skeleton_from_dist m dmap =
     (let h = length m;
          w = width m
      in fold (ridge_cell m dmap) (raster 1 (h - 1) 1 (w - 1)) (replicate h (replicate w False)))"

text \<open>
  The skeleton stage of \<open>text_to_centerline_strokes_mm\<close>: ridge extraction, followed by
  thinning when the iteration cap is positive, or thinning alone.
\<close>

definition skeletonize :: "string \<Rightarrow> mask \<Rightarrow> int \<Rightarrow> py_error + mask" where
  "skeletonize skeleton_method m thin_max_iter =
     (if skeleton_method = ''ridge'' then
        let dmap = distance_transform_chamfer m;
            skel = ridge_skeleton_from_dist m dmap
        in if thin_max_iter > 0 then zhang_suen_thin skel thin_max_iter else Inr skel
      else zhang_suen_thin m thin_max_iter)"

text \<open>
  The cells of the 8-neighbourhood of \<open>(r, c)\<close> inside the grid, in the order of the
  tracer's \<open>nbrs\<close>, and whether some such neighbour is set.
\<close>

definition nbr_cells :: "nat \<Rightarrow> nat \<Rightarrow> nat \<Rightarrow> nat \<Rightarrow> (nat \<times> nat) list" where
  "nbr_cells H W r c =
     map (\<lambda>(rr, cc). (nat rr, nat cc))
       (filter (\<lambda>(rr, cc). 0 \<le> rr \<and> rr < int H \<and> 0 \<le> cc \<and> cc < int W)
          (map (\<lambda>(dr, dc). (int r + dr, int c + dc))
             [(- 1, - 1), (- 1, 0), (- 1, 1), (0, - 1), (0, 1), (1, - 1), (1, 0), (1, 1)]))"

definition has_neighbor8 :: "mask \<Rightarrow> nat \<Rightarrow> nat \<Rightarrow> bool" where
  "has_neighbor8 skel r c =
     list_ex (\<lambda>(rr, cc). skel ! rr ! cc) (nbr_cells (length skel) (width skel) r c)"

section \<open>Properties of the skeleton stage\<close>

text \<open>
  \<open>inside_mask h w m skel\<close>: the skeleton has the shape of the mask, and each of its set
  cells is a set cell of the mask that does not lie on the border of the grid.
\<close>

definition inside_mask :: "nat \<Rightarrow> nat \<Rightarrow> mask \<Rightarrow> mask \<Rightarrow> bool" where
  "inside_mask h w m skel \<longleftrightarrow>
     rect h w skel \<and>
     (\<forall>i<h. \<forall>j<w. skel ! i ! j \<longrightarrow> m ! i ! j \<and> 0 < i \<and> i + 1 < h \<and> 0 < j \<and> j + 1 < w)"

lemma rect_astype_uint8: "rect h w m \<Longrightarrow> rect h w (astype_uint8 m)"
  by (auto simp: rect_set astype_uint8_def)

lemma rect_astype_bool: "rect h w a \<Longrightarrow> rect h w (astype_bool a)"
  by (auto simp: rect_set astype_bool_def)

lemma astype_uint8_nth:
  "rect h w m \<Longrightarrow> i < h \<Longrightarrow> j < w \<Longrightarrow> astype_uint8 m ! i ! j = (if m ! i ! j then 1 else 0)"
  by (simp add: astype_uint8_def rect_def list_all_length)

lemma astype_bool_nth:
  "rect h w a \<Longrightarrow> i < h \<Longrightarrow> j < w \<Longrightarrow> astype_bool a ! i ! j = (a ! i ! j \<noteq> 0)"
  by (simp add: astype_bool_def rect_def list_all_length)

definition kept_inside :: "nat \<Rightarrow> nat \<Rightarrow> image \<Rightarrow> image \<Rightarrow> bool" where
  "kept_inside h w a0 img \<longleftrightarrow>
     rect h w img \<and>
     (\<forall>i<h. \<forall>j<w. img ! i ! j \<noteq> 0 \<longrightarrow>
        a0 ! i ! j \<noteq> 0 \<and> 0 < i \<and> i + 1 < h \<and> 0 < j \<and> j + 1 < w)"

lemma kept_inside_clear_borders:
  assumes "rect h w a0"
  shows "kept_inside h w a0 (clear_borders a0)"
proof -
  have "a0 ! i ! j \<noteq> 0 \<and> 0 < i \<and> i + 1 < h \<and> 0 < j \<and> j + 1 < w"
    if "i < h" "j < w" "clear_borders a0 ! i ! j \<noteq> 0" for i j
  proof -
    from that(3) clear_borders_nth [OF assms that(1,2)]
    have "\<not> (i = 0 \<or> i = h - 1 \<or> j = 0 \<or> j = w - 1)" "a0 ! i ! j \<noteq> 0"
      by (auto split: if_splits)
    then show ?thesis using that(1,2) by auto
  qed
  then show ?thesis unfolding kept_inside_def using rect_clear_borders [OF assms] by blast
qed

lemma kept_inside_step:
  assumes "kept_inside h w a0 img"
  shows "kept_inside h w a0 (fst (thin_iteration img))"
proof -
  have r: "rect h w img" using assms by (simp add: kept_inside_def)
  from clears_only_thin_iteration [OF r]
  have c: "rect h w (fst (thin_iteration img))"
    "\<forall>i<h. \<forall>j<w. fst (thin_iteration img) ! i ! j = 0 \<or>
        fst (thin_iteration img) ! i ! j = img ! i ! j"
    by (simp_all add: clears_only_def)
  have "a0 ! i ! j \<noteq> 0 \<and> 0 < i \<and> i + 1 < h \<and> 0 < j \<and> j + 1 < w"
    if "i < h" "j < w" "fst (thin_iteration img) ! i ! j \<noteq> 0" for i j
  proof -
    from c(2) that have "img ! i ! j \<noteq> 0" by metis
    with assms that(1,2) show ?thesis unfolding kept_inside_def by blast
  qed
  with c(1) show ?thesis unfolding kept_inside_def by blast
qed

lemma kept_inside_funpow:
  "kept_inside h w a0 img \<Longrightarrow>
     kept_inside h w a0 (((\<lambda>a. fst (thin_iteration a)) ^^ n) img)"
  by (induction n) (simp_all add: kept_inside_step)

lemma zhang_suen_thin_inside:
  assumes "rect h w m" "zhang_suen_thin m max_iter = Inr skel"
  shows "inside_mask h w m skel"
proof -
  from assms(2) obtain it where run: "zhang_suen_thin_run m max_iter = Inr (skel, it)"
    by (auto simp: zhang_suen_thin_def split: sum.splits)
  then have ne: "\<not> (m = [] \<or> width m = 0)"
    by (auto simp: zhang_suen_thin_run_def split: if_splits)
  obtain img it' where l: "thin_loop (clear_borders (astype_uint8 m)) True 0 max_iter = (img, it')"
    by (cases "thin_loop (clear_borders (astype_uint8 m)) True 0 max_iter")
  with run ne have sk: "skel = astype_bool img" by (simp add: zhang_suen_thin_run_def)
  have a0: "rect h w (astype_uint8 m)" using assms(1) by (rule rect_astype_uint8)
  from thin_loop_bound [OF l]
  have "img = ((\<lambda>a. fst (thin_iteration a)) ^^ nat (it' - 0)) (clear_borders (astype_uint8 m))"
    by blast
  then have k: "kept_inside h w (astype_uint8 m) img"
    using kept_inside_funpow [OF kept_inside_clear_borders [OF a0]] by simp
  then have r: "rect h w img" by (simp add: kept_inside_def)
  have "m ! i ! j \<and> 0 < i \<and> i + 1 < h \<and> 0 < j \<and> j + 1 < w"
    if "i < h" "j < w" "skel ! i ! j" for i j
  proof -
    from that have "img ! i ! j \<noteq> 0" using astype_bool_nth [OF r that(1,2)] sk by simp
    with k that(1,2) have "astype_uint8 m ! i ! j \<noteq> 0" "0 < i \<and> i + 1 < h \<and> 0 < j \<and> j + 1 < w"
      unfolding kept_inside_def by blast+
    then show ?thesis using astype_uint8_nth [OF assms(1) that(1,2)] by (auto split: if_splits)
  qed
  then show ?thesis unfolding inside_mask_def sk using rect_astype_bool [OF r] sk by blast
qed

lemma rect_set_cell: "rect h w g \<Longrightarrow> rect h w (set_cell g r c v)"
proof (cases "r < length g")
  case True
  assume "rect h w g"
  with True show ?thesis
    by (intro rectI) (auto simp: set_cell_def rect_def list_all_length nth_list_update)
next
  case False
  assume "rect h w g"
  with False show ?thesis by (simp add: set_cell_def list_update_beyond not_less)
qed

lemma set_cell_nth:
  "rect h w g \<Longrightarrow> i < h \<Longrightarrow> j < w \<Longrightarrow>
     set_cell g r c v ! i ! j = (if i = r \<and> j = c then v else g ! i ! j)"
proof (cases "i = r")
  case True
  assume "rect h w g" "i < h" "j < w"
  with True show ?thesis
    by (simp add: set_cell_def rect_def list_all_length nth_list_update)
next
  case False
  assume "rect h w g" "i < h" "j < w"
  with False show ?thesis by (simp add: set_cell_def)
qed

lemma raster_mem: "(r, c) \<in> set (raster r0 r1 c0 c1) \<longleftrightarrow> r0 \<le> r \<and> r < r1 \<and> c0 \<le> c \<and> c < c1"
  by (auto simp: raster_def image_iff)

lemma ridge_fold_inside:
  assumes "rect h w m" "inside_mask h w m skel"
    "\<forall>rc\<in>set cells. 0 < fst rc \<and> fst rc + 1 < h \<and> 0 < snd rc \<and> snd rc + 1 < w"
  shows "inside_mask h w m (fold (ridge_cell m dmap) cells skel)"
  using assms(2,3)
proof (induction cells arbitrary: skel)
  case Nil
  then show ?case by simp
next
  case (Cons rc cells)
  obtain r c where rc: "rc = (r, c)" by (cases rc)
  have in_rc: "0 < r" "r + 1 < h" "0 < c" "c + 1 < w" using Cons.prems(2) rc by auto
  have sk: "rect h w skel" using Cons.prems(1) by (simp add: inside_mask_def)
  have "inside_mask h w m (ridge_cell m dmap rc skel)"
  proof (cases "ridge_cell m dmap rc skel = skel")
    case True
    then show ?thesis using Cons.prems(1) by simp
  next
    case False
    then have eq: "ridge_cell m dmap rc skel = set_cell skel r c True" and mrc: "m ! r ! c"
      unfolding ridge_cell_def rc by (auto simp: Let_def split: if_splits)
    have "m ! i ! j \<and> 0 < i \<and> i + 1 < h \<and> 0 < j \<and> j + 1 < w"
      if "i < h" "j < w" "set_cell skel r c True ! i ! j" for i j
    proof (cases "i = r \<and> j = c")
      case True
      then show ?thesis using mrc in_rc by simp
    next
      case False
      with that set_cell_nth [OF sk that(1,2), of r c True] have "skel ! i ! j" by simp
      with Cons.prems(1) that(1,2) show ?thesis unfolding inside_mask_def by blast
    qed
    then show ?thesis unfolding eq inside_mask_def using rect_set_cell [OF sk] by blast
  qed
  then show ?case using Cons.IH Cons.prems(2) by simp
qed

lemma ridge_skeleton_inside:
  assumes "rect h w m"
  shows "inside_mask h w m (ridge_skeleton_from_dist m dmap)"
proof (cases "h = 0")
  case True
  with assms have "m = []" by (simp add: rect_def)
  then show ?thesis using True by (simp add: ridge_skeleton_from_dist_def raster_def inside_mask_def rect_def)
next
  case False
  then have hw: "length m = h" "width m = w" using assms by (simp_all add: rect_width rect_length)
  have z: "inside_mask h w m (replicate h (replicate w False))"
    by (simp add: inside_mask_def rect_replicate)
  have cells: "\<forall>rc\<in>set (raster 1 (h - 1) 1 (w - 1)).
      0 < fst rc \<and> fst rc + 1 < h \<and> 0 < snd rc \<and> snd rc + 1 < w"
    by (auto simp: raster_mem)
  show ?thesis
    unfolding ridge_skeleton_from_dist_def Let_def hw
    using assms z cells by (rule ridge_fold_inside)
qed

lemma inside_mask_trans:
  assumes "inside_mask h w m skel" "inside_mask h w skel skel'"
  shows "inside_mask h w m skel'"
  using assms unfolding inside_mask_def by blast

text \<open>
  Claim C4, as amended. Under either method, every pixel set in the skeleton is a set
  pixel of the input mask and does not lie on the border of the grid. (It need not have a
  set 8-neighbour in the skeleton: see the 3x3 block below.)
\<close>

theorem skeleton_within_mask:
  assumes "rect h w m" "skeletonize skeleton_method m thin_max_iter = Inr skel"
  shows "rect h w skel \<and>
         (\<forall>i<h. \<forall>j<w. skel ! i ! j \<longrightarrow> m ! i ! j \<and> 0 < i \<and> i + 1 < h \<and> 0 < j \<and> j + 1 < w)"
proof -
  have "inside_mask h w m skel"
  proof (cases "skeleton_method = ''ridge''")
    case False
    with assms(2) have "zhang_suen_thin m thin_max_iter = Inr skel"
      by (simp add: skeletonize_def)
    with assms(1) show ?thesis by (rule zhang_suen_thin_inside)
  next
    case True
    let ?r = "ridge_skeleton_from_dist m (distance_transform_chamfer m)"
    have r: "inside_mask h w m ?r" using assms(1) by (rule ridge_skeleton_inside)
    show ?thesis
    proof (cases "thin_max_iter > 0")
      case False
      with True assms(2) have "skel = ?r" by (simp add: skeletonize_def Let_def)
      with r show ?thesis by simp
    next
      case gt: True
      with True assms(2) have "zhang_suen_thin ?r thin_max_iter = Inr skel"
        by (simp add: skeletonize_def Let_def)
      moreover have "rect h w ?r" using r by (simp add: inside_mask_def)
      ultimately have "inside_mask h w ?r skel" by (intro zhang_suen_thin_inside)
      with r show ?thesis by (rule inside_mask_trans)
    qed
  qed
  then show ?thesis by (simp add: inside_mask_def)
qed

text \<open>\<open>mask.sum()\<close>: the number of set cells.\<close>

definition mask_count :: "mask \<Rightarrow> nat" where
  "mask_count m = sum_list (map (\<lambda>row. length (filter id row)) m)"

lemma block_rect:
  "rect 5 5 [[False, False, False, False, False],
             [False, True, True, True, False],
             [False, True, True, True, False],
             [False, True, True, True, False],
             [False, False, False, False, False]]"
  by (simp add: rect_def)

lemma block_thin_run:
  "zhang_suen_thin_run
     [[False, False, False, False, False],
      [False, True, True, True, False],
      [False, True, True, True, False],
      [False, True, True, True, False],
      [False, False, False, False, False]] 300 =
   Inr ([[False, False, False, False, False],
         [False, False, False, False, False],
         [False, False, True, False, False],
         [False, False, False, False, False],
         [False, False, False, False, False]], 2)"
  by code_simp

lemma block_skeleton_thin:
  "skeletonize ''thin''
     [[False, False, False, False, False],
      [False, True, True, True, False],
      [False, True, True, True, False],
      [False, True, True, True, False],
      [False, False, False, False, False]] 300 =
   Inr [[False, False, False, False, False],
        [False, False, False, False, False],
        [False, False, True, False, False],
        [False, False, False, False, False],
        [False, False, False, False, False]]"
  by code_simp

lemma block_isolated:
  "\<not> has_neighbor8
       [[False, False, False, False, False],
        [False, False, False, False, False],
        [False, False, True, False, False],
        [False, False, False, False, False],
        [False, False, False, False, False]] 2 2"
  by code_simp

lemma block_count:
  "mask_count
     [[False, False, False, False, False],
      [False, True, True, True, False],
      [False, True, True, True, False],
      [False, True, True, True, False],
      [False, False, False, False, False]] = 9"
  by code_simp

lemma upt_0_5: "[0 ..< 5] = [0, 1, 2, 3, 4]"
  by code_simp

lemma block_chamfer:
  "distance_transform_chamfer
     [[False, False, False, False, False],
      [False, True, True, True, False],
      [False, True, True, True, False],
      [False, True, True, True, False],
      [False, False, False, False, False]] =
   [[0, 0, 0, 0, 0], [0, 3, 3, 3, 0], [0, 3, 6, 3, 0], [0, 3, 3, 3, 0], [0, 0, 0, 0, 0]]"
  by (simp add: distance_transform_chamfer_def chamfer_fwd_cell_def chamfer_bwd_cell_def
      set_cell_def raster_def width_def upt_0_5)


lemma upt_1_4: "[1 ..< 4] = [1, 2, 3]"
  by code_simp

lemma block_local_max:
  "local_max [[0, 0, 0, 0, 0], [0, 3, 3, 3, 0], [0, 3, 6, 3, 0], [0, 3, 3, 3, 0], [0, 0, 0, 0, 0]] 1 1 = 6"
  "local_max [[0, 0, 0, 0, 0], [0, 3, 3, 3, 0], [0, 3, 6, 3, 0], [0, 3, 3, 3, 0], [0, 0, 0, 0, 0]] 1 2 = 6"
  "local_max [[0, 0, 0, 0, 0], [0, 3, 3, 3, 0], [0, 3, 6, 3, 0], [0, 3, 3, 3, 0], [0, 0, 0, 0, 0]] 1 3 = 6"
  "local_max [[0, 0, 0, 0, 0], [0, 3, 3, 3, 0], [0, 3, 6, 3, 0], [0, 3, 3, 3, 0], [0, 0, 0, 0, 0]] 2 1 = 6"
  "local_max [[0, 0, 0, 0, 0], [0, 3, 3, 3, 0], [0, 3, 6, 3, 0], [0, 3, 3, 3, 0], [0, 0, 0, 0, 0]] 2 2 = 6"
  "local_max [[0, 0, 0, 0, 0], [0, 3, 3, 3, 0], [0, 3, 6, 3, 0], [0, 3, 3, 3, 0], [0, 0, 0, 0, 0]] 2 3 = 6"
  "local_max [[0, 0, 0, 0, 0], [0, 3, 3, 3, 0], [0, 3, 6, 3, 0], [0, 3, 3, 3, 0], [0, 0, 0, 0, 0]] 3 1 = 6"
  "local_max [[0, 0, 0, 0, 0], [0, 3, 3, 3, 0], [0, 3, 6, 3, 0], [0, 3, 3, 3, 0], [0, 0, 0, 0, 0]] 3 2 = 6"
  "local_max [[0, 0, 0, 0, 0], [0, 3, 3, 3, 0], [0, 3, 6, 3, 0], [0, 3, 3, 3, 0], [0, 0, 0, 0, 0]] 3 3 = 6"
  by code_simp+

lemma block_local_max_any:
  assumes "r \<in> {1, 2, 3}" "c \<in> {1, 2, 3}"
  shows "local_max [[0, 0, 0, 0, 0], [0, 3, 3, 3, 0], [0, 3, 6, 3, 0], [0, 3, 3, 3, 0], [0, 0, 0, 0, 0]] r c = 6"
  using assms block_local_max by (elim insertE emptyE) simp_all

lemma block_ridge:
  "ridge_skeleton_from_dist
     [[False, False, False, False, False],
      [False, True, True, True, False],
      [False, True, True, True, False],
      [False, True, True, True, False],
      [False, False, False, False, False]]
     [[0, 0, 0, 0, 0], [0, 3, 3, 3, 0], [0, 3, 6, 3, 0], [0, 3, 3, 3, 0], [0, 0, 0, 0, 0]] =
   [[False, False, False, False, False],
      [False, False, False, False, False],
      [False, False, True, False, False],
      [False, False, False, False, False],
      [False, False, False, False, False]]"
  by (simp add: ridge_skeleton_from_dist_def ridge_cell_def set_cell_def raster_def width_def
      upt_1_4 block_local_max_any)

lemma block_skeleton_ridge:
  "skeletonize ''ridge''
     [[False, False, False, False, False],
      [False, True, True, True, False],
      [False, True, True, True, False],
      [False, True, True, True, False],
      [False, False, False, False, False]] 0 =
   Inr [[False, False, False, False, False],
      [False, False, False, False, False],
      [False, False, True, False, False],
      [False, False, False, False, False],
      [False, False, False, False, False]]"
  by (simp add: skeletonize_def block_chamfer block_ridge)

theorem zhang_suen_thin_bounded_witness:
  "rect 5 5
     [[False, False, False, False, False],
      [False, True, True, True, False],
      [False, True, True, True, False],
      [False, True, True, True, False],
      [False, False, False, False, False]] \<and>
   zhang_suen_thin_run
     [[False, False, False, False, False],
      [False, True, True, True, False],
      [False, True, True, True, False],
      [False, True, True, True, False],
      [False, False, False, False, False]] 300 =
   Inr ([[False, False, False, False, False],
      [False, False, False, False, False],
      [False, False, True, False, False],
      [False, False, False, False, False],
      [False, False, False, False, False]], 2) \<and>
   (2 :: int) \<le> max 0 300"
proof -
  have p: "(0 :: nat) < 5" by simp
  from zhang_suen_thin_bounded [OF block_rect p p, of 300]
  obtain skel it where k: "zhang_suen_thin_run
     [[False, False, False, False, False],
      [False, True, True, True, False],
      [False, True, True, True, False],
      [False, True, True, True, False],
      [False, False, False, False, False]] 300 = Inr (skel, it)" "it \<le> max 0 300"
    by blast
  from k(1) have "it = 2" unfolding block_thin_run by simp
  with k(2) have "(2 :: int) \<le> max 0 300" by simp
  then show ?thesis by (intro conjI block_rect block_thin_run)
qed

text \<open>
  The claim C4 as stated fails: the skeleton of a 3x3 block (nine foreground pixels)
  is, under thinning and under ridge extraction alike, the single centre pixel, which
  has no set 8-neighbour in the skeleton.
\<close>

theorem skeleton_isolated_pixel_counterexample:
  "skeletonize ''thin''
     [[False, False, False, False, False],
      [False, True, True, True, False],
      [False, True, True, True, False],
      [False, True, True, True, False],
      [False, False, False, False, False]] 300 =
   Inr [[False, False, False, False, False],
      [False, False, False, False, False],
      [False, False, True, False, False],
      [False, False, False, False, False],
      [False, False, False, False, False]] \<and>
   skeletonize ''ridge''
     [[False, False, False, False, False],
      [False, True, True, True, False],
      [False, True, True, True, False],
      [False, True, True, True, False],
      [False, False, False, False, False]] 0 =
   Inr [[False, False, False, False, False],
      [False, False, False, False, False],
      [False, False, True, False, False],
      [False, False, False, False, False],
      [False, False, False, False, False]] \<and>
   [[False, False, False, False, False],
      [False, False, False, False, False],
      [False, False, True, False, False],
      [False, False, False, False, False],
      [False, False, False, False, False]] ! 2 ! 2 \<and>
   \<not> has_neighbor8
     [[False, False, False, False, False],
      [False, False, False, False, False],
      [False, False, True, False, False],
      [False, False, False, False, False],
      [False, False, False, False, False]] 2 2 \<and>
   mask_count
     [[False, False, False, False, False],
      [False, True, True, True, False],
      [False, True, True, True, False],
      [False, True, True, True, False],
      [False, False, False, False, False]] = 9"
  by (intro conjI block_skeleton_thin block_skeleton_ridge block_isolated block_count) simp

theorem skeleton_within_mask_witness:
  "rect 5 5
     [[False, False, False, False, False],
      [False, True, True, True, False],
      [False, True, True, True, False],
      [False, True, True, True, False],
      [False, False, False, False, False]] \<and>
   skeletonize ''thin''
     [[False, False, False, False, False],
      [False, True, True, True, False],
      [False, True, True, True, False],
      [False, True, True, True, False],
      [False, False, False, False, False]] 300 =
   Inr [[False, False, False, False, False],
      [False, False, False, False, False],
      [False, False, True, False, False],
      [False, False, False, False, False],
      [False, False, False, False, False]] \<and>
   rect 5 5
     [[False, False, False, False, False],
      [False, False, False, False, False],
      [False, False, True, False, False],
      [False, False, False, False, False],
      [False, False, False, False, False]]"
proof -
  from skeleton_within_mask [OF block_rect block_skeleton_thin]
  have "rect 5 5
     [[False, False, False, False, False],
      [False, False, False, False, False],
      [False, False, True, False, False],
      [False, False, False, False, False],
      [False, False, False, False, False]]" by (rule conjunct1)
  then show ?thesis by (intro conjI block_rect block_skeleton_thin)
qed

end
